theory Spec2Isabelle
  imports Complex_Main "HOL-Library.Multiset"
begin

section \<open>JavaScript strings and numbers as the timestamp code uses them\<close>

text \<open>
  Strings are \<^typ>\<open>string\<close>. A JavaScript number is modelled as an exact integer or
  \<open>NaN\<close>: the timecode arithmetic of \<open>audio-chunks.ts\<close> only ever multiplies, adds,
  floors and takes remainders, all of which are exact on integers in the range a
  double represents exactly.
\<close>

datatype jsnum = Num int | NaN

definition is_ws :: "char \<Rightarrow> bool" where
  "is_ws c = (c = CHR '' '' \<or> c = CHR 0x09 \<or> c = CHR 0x0A \<or> c = CHR 0x0B
              \<or> c = CHR 0x0C \<or> c = CHR 0x0D)"

text \<open>\<open>String.prototype.trim\<close> (on the ASCII white space characters).\<close>

definition trim :: "string \<Rightarrow> string" where
  "trim s = rev (dropWhile is_ws (rev (dropWhile is_ws s)))"

text \<open>\<open>s.split(":")\<close>: the fields between colons; the empty string has one empty field.\<close>

fun split_colon :: "string \<Rightarrow> string list" where
  "split_colon [] = [] # []"
| "split_colon (c # cs) =
     (if c = CHR '':'' then [] # split_colon cs
      else (case split_colon cs of
              [] \<Rightarrow> [c] # []
            | p # ps \<Rightarrow> (c # p) # ps))"

definition is_digit :: "char \<Rightarrow> bool" where
  "is_digit c = (48 \<le> (of_char c :: nat) \<and> (of_char c :: nat) \<le> 57)"

definition digit_val :: "char \<Rightarrow> nat" where
  "digit_val c = of_char c - 48"

definition digits_val :: "string \<Rightarrow> nat" where
  "digits_val s = foldl (\<lambda>acc c. acc * 10 + digit_val c) 0 s"

text \<open>
  \<open>Number(s)\<close> on the literals a timecode field can hold: surrounding white space is
  ignored, the empty string is \<open>0\<close>, a run of decimal digits is its value (leading
  zeros allowed), and a field that is no such literal is \<open>NaN\<close>. Signs, fractions,
  exponents and radix prefixes are outside this model.
\<close>

definition Number :: "string \<Rightarrow> jsnum" where
  "Number s =
     (let t = trim s in
      if t = [] then Num 0
      else if list_all is_digit t then Num (int (digits_val t))
      else NaN)"

definition digit_char :: "nat \<Rightarrow> char" where
  "digit_char d = char_of (48 + d)"

fun digits_of :: "nat \<Rightarrow> string" where
  "digits_of n = (if n < 10 then [digit_char n] else digits_of (n div 10) @ [digit_char (n mod 10)])"

declare digits_of.simps [simp del]

text \<open>\<open>String(n)\<close>.\<close>

fun String_num :: "jsnum \<Rightarrow> string" where
  "String_num NaN = ''NaN''"
| "String_num (Num n) = (if n < 0 then CHR ''-'' # digits_of (nat (- n)) else digits_of (nat n))"

text \<open>\<open>s.padStart(2, "0")\<close>.\<close>

definition padStart2 :: "string \<Rightarrow> string" where
  "padStart2 s = replicate (2 - length s) (CHR ''0'') @ s"

text \<open>\<open>xs.join(":")\<close>.\<close>

fun join_colon :: "string list \<Rightarrow> string" where
  "join_colon [] = []"
| "join_colon [x] = x"
| "join_colon (x # y # ys) = x @ CHR '':'' # join_colon (y # ys)"

text \<open>Arithmetic on numbers: \<open>NaN\<close> is absorbing.\<close>

fun jadd :: "jsnum \<Rightarrow> jsnum \<Rightarrow> jsnum" where
  "jadd (Num a) (Num b) = Num (a + b)"
| "jadd _ _ = NaN"

fun jmul :: "jsnum \<Rightarrow> jsnum \<Rightarrow> jsnum" where
  "jmul (Num a) (Num b) = Num (a * b)"
| "jmul _ _ = NaN"

text \<open>
  \<open>a % b\<close> takes the sign of the dividend (truncated division), unlike \<open>mod\<close> on
  \<^typ>\<open>int\<close>.
\<close>

definition trunc_rem :: "int \<Rightarrow> int \<Rightarrow> int" where
  "trunc_rem a b = sgn a * (\<bar>a\<bar> mod \<bar>b\<bar>)"

fun jrem :: "jsnum \<Rightarrow> int \<Rightarrow> jsnum" where
  "jrem (Num a) b = Num (trunc_rem a b)"
| "jrem NaN _ = NaN"

text \<open>\<open>Math.floor(a / b)\<close> for a positive integer constant \<open>b\<close>.\<close>

fun jfloor_div :: "jsnum \<Rightarrow> int \<Rightarrow> jsnum" where
  "jfloor_div (Num a) b = Num (a div b)"
| "jfloor_div NaN _ = NaN"

section \<open>\<open>src/lib/audio-chunks.ts\<close>\<close>

definition CHUNK_DURATION_SEC :: int where
  "CHUNK_DURATION_SEC = 600"

text \<open>
  The destructuring \<open>const [h = 0, m = 0, s = 0] = parts\<close>: a missing position takes
  its default, a present one (also \<open>NaN\<close>) is kept, further positions are ignored.
\<close>

fun destructure3 :: "jsnum list \<Rightarrow> jsnum \<times> jsnum \<times> jsnum" where
  "destructure3 [] = (Num 0, Num 0, Num 0)"
| "destructure3 [h] = (h, Num 0, Num 0)"
| "destructure3 [h, m] = (h, m, Num 0)"
| "destructure3 (h # m # s # _) = (h, m, s)"

definition addOffsetToTimestamp :: "string \<Rightarrow> int \<Rightarrow> string" where
  "addOffsetToTimestamp timeStr offsetSec =
     (let parts = map Number (split_colon (trim timeStr));
          (h, m, s) = destructure3 parts;
          totalSeconds = jadd (jadd (jadd (jmul h (Num 3600)) (jmul m (Num 60))) s) (Num offsetSec);
          newH = jfloor_div totalSeconds 3600;
          newM = jfloor_div (jrem totalSeconds 3600) 60;
          newS = jfloor_div (jrem totalSeconds 60) 1
      in join_colon (map (\<lambda>n. padStart2 (String_num n)) [newH, newM, newS]))"

text \<open>
  A timecode in the form the response schema asks for: three colon-separated fields of
  decimal digits, none of them empty. \<open>timecode_seconds\<close> is the number of seconds
  such a timecode denotes.
\<close>

definition is_timecode :: "string \<Rightarrow> bool" where
  "is_timecode t =
     (case split_colon t of
        [h, m, s] \<Rightarrow> h \<noteq> [] \<and> list_all is_digit h \<and> m \<noteq> [] \<and> list_all is_digit m
                     \<and> s \<noteq> [] \<and> list_all is_digit s
      | _ \<Rightarrow> False)"

definition timecode_seconds :: "string \<Rightarrow> int" where
  "timecode_seconds t =
     (case split_colon t of
        [h, m, s] \<Rightarrow> int (digits_val h) * 3600 + int (digits_val m) * 60 + int (digits_val s)
      | _ \<Rightarrow> 0)"

text \<open>The rendering of a non-negative number of seconds with two-digit padding.\<close>

definition two_digits :: "int \<Rightarrow> string" where
  "two_digits n = padStart2 (digits_of (nat n))"

definition render_hms :: "int \<Rightarrow> string" where
  "render_hms T =
     two_digits (T div 3600) @ '':'' @ two_digits (T mod 3600 div 60) @ '':'' @ two_digits (T mod 60)"

subsection \<open>Messages and exceptions\<close>

text \<open>
  The texts the pipeline writes to the task's \<open>error_message\<close> field and the messages of
  the errors it throws. The literal texts are Russian; each fixed text is a constructor
  here, and \<open>Text\<close> carries a message that comes from outside (an error of the media
  tool, of the transcription service or of the task store).
  \<^item> \<open>AnalysingAudio\<close>: "analysing the audio file..."
  \<^item> \<open>PreparingFragments\<close>: "preparing fragments..."
  \<^item> \<open>SendingToAI\<close>: "sending to the AI..."
  \<^item> \<open>ProcessingPart k n\<close>: "processing part k of n..."
  \<^item> \<open>ProcessingPartPct k n pct\<close>: "processing part k of n... (pct%)"
  \<^item> \<open>AssemblingResult\<close>: "assembling the result..."
  \<^item> \<open>NoSegmentsFromAnyFragment\<close>: "could not get segments from any fragment of the audio"
  \<^item> \<open>ApiKeyNotConfigured\<close>: "GEMINI_API_KEY is not configured"
  \<^item> \<open>EmptyOrInvalidSegments\<close>: "Empty or invalid segments in response"
  \<^item> \<open>FileState s\<close>: "File state: s"
  \<^item> \<open>DirectusError status body\<close>: "Directus: status body"
  \<^item> \<open>TrimTypeError\<close>: the message of the \<open>TypeError\<close> that \<open>timeStr.trim()\<close> raises
    when \<open>timeStr\<close> is not a string (its wording depends on the value)
  An exception is identified with its message; a computation that may throw returns
  \<open>message + 'a\<close>, \<open>Inl\<close> being the throw (for a promise: the rejection).
\<close>

datatype message =
    Text string
  | AnalysingAudio
  | PreparingFragments
  | SendingToAI
  | ProcessingPart nat nat
  | ProcessingPartPct nat nat int
  | AssemblingResult
  | NoSegmentsFromAnyFragment
  | ApiKeyNotConfigured
  | EmptyOrInvalidSegments
  | FileState string
  | DirectusError nat string
  | TrimTypeError

subsection \<open>The media tool\<close>

text \<open>
  What \<open>metadata?.format?.duration\<close> can hold. Durations are rationals: the splitter
  only compares, subtracts and divides them.
\<close>

datatype js_value = JUndefined | JNull | JBoolean bool | JNumber rat | JNaN | JString string

record format_info =
  duration :: js_value

record metadata =
  format :: "format_info option"

text \<open>The two arguments \<open>(err, metadata)\<close> the probe hands to its callback.\<close>

datatype probe_reply = ProbeError string | ProbeData "metadata option"

text \<open>One run of the encoder: \<open>ffmpeg(input).setStartTime(..).setDuration(..).output(..)\<close>.\<close>

record ffjob =
  job_input :: string
  job_start :: rat
  job_duration :: rat
  job_output :: string

text \<open>
  The media tool as the code sees it: whether \<open>require("fluent-ffmpeg")\<close> succeeds, what
  the probe answers for a path, whether an encoder run ends (\<open>None\<close>) or reports an error
  (\<open>Some\<close> message), and the functions of Node's \<open>path\<close> module.
\<close>

record media_env =
  ffmpeg_present :: bool
  ffprobe :: "string \<Rightarrow> probe_reply"
  ffmpeg_run :: "ffjob \<Rightarrow> string option"
  path_dirname :: "string \<Rightarrow> string"
  path_extname :: "string \<Rightarrow> string"
  path_basename :: "string \<Rightarrow> string \<Rightarrow> string"
  path_join :: "string \<Rightarrow> string \<Rightarrow> string"

definition probed_duration :: "metadata option \<Rightarrow> js_value" where
  "probed_duration md =
     (case md of
        None \<Rightarrow> JUndefined
      | Some m \<Rightarrow> (case format m of None \<Rightarrow> JUndefined | Some f \<Rightarrow> duration f))"

definition getAudioDuration :: "media_env \<Rightarrow> string \<Rightarrow> message + rat option" where
  "getAudioDuration env filePath =
     (if \<not> ffmpeg_present env then Inr None
      else (case ffprobe env filePath of
              ProbeError msg \<Rightarrow> Inr None
            | ProbeData md \<Rightarrow>
                (case probed_duration md of
                   JNumber dur \<Rightarrow> Inr (if dur > 0 then Some dur else None)
                 | _ \<Rightarrow> Inr None)))"

definition chunk_path :: "media_env \<Rightarrow> string \<Rightarrow> nat \<Rightarrow> string" where
  "chunk_path env originalPath i =
     (let dir = path_dirname env originalPath;
          ext = path_extname env originalPath;
          base = path_basename env originalPath ext
      in path_join env dir (base @ ''_chunk_'' @ String_num (Num (int i)) @ ext))"

definition chunk_job :: "media_env \<Rightarrow> string \<Rightarrow> rat \<Rightarrow> nat \<Rightarrow> ffjob" where
  "chunk_job env originalPath dur i =
     (let startSec = of_nat i * of_int CHUNK_DURATION_SEC;
          durationSec = min (of_int CHUNK_DURATION_SEC) (dur - startSec)
      in \<lparr>job_input = originalPath, job_start = startSec, job_duration = durationSec,
          job_output = chunk_path env originalPath i\<rparr>)"

text \<open>
  The loop over \<open>i = 0 .. chunkCount - 1\<close>, as recursion over the indices still to do.
  The first component is the list of encoder runs started so far; an encoder error
  rejects the promise and ends the loop.
\<close>

fun split_loop ::
  "media_env \<Rightarrow> string \<Rightarrow> rat \<Rightarrow> nat list \<Rightarrow> ffjob list \<Rightarrow> string list
     \<Rightarrow> ffjob list \<times> (message + string list)" where
  "split_loop env originalPath dur [] jobs chunkPaths = (jobs, Inr chunkPaths)"
| "split_loop env originalPath dur (i # rest) jobs chunkPaths =
     (let job = chunk_job env originalPath dur i in
      case ffmpeg_run env job of
        Some err \<Rightarrow> (jobs @ [job], Inl (Text err))
      | None \<Rightarrow> split_loop env originalPath dur rest (jobs @ [job]) (chunkPaths @ [job_output job]))"

definition splitAudioIntoChunks ::
  "media_env \<Rightarrow> string \<Rightarrow> ffjob list \<times> (message + string list)" where
  "splitAudioIntoChunks env originalPath =
     (if \<not> ffmpeg_present env then ([], Inr [originalPath])
      else (case getAudioDuration env originalPath of
              Inl e \<Rightarrow> ([], Inl e)
            | Inr None \<Rightarrow> ([], Inr [originalPath])
            | Inr (Some dur) \<Rightarrow>
                if dur \<le> of_int CHUNK_DURATION_SEC then ([], Inr [originalPath])
                else (let chunkCount = nat \<lceil>dur / of_int CHUNK_DURATION_SEC\<rceil>
                      in split_loop env originalPath dur [0..<chunkCount] [] [])))"

text \<open>
  The duration the splitter gives chunk \<open>i\<close> of a source of duration \<open>D\<close>, with the
  chunk size written out.
\<close>

definition chunk_len :: "rat \<Rightarrow> nat \<Rightarrow> rat" where
  "chunk_len D i = min 600 (D - of_nat i * 600)"

text \<open>
  A media tool that is installed, reports the given value as the duration of every
  file, and encodes every chunk without error.
\<close>

definition sample_media :: "js_value \<Rightarrow> media_env" where
  "sample_media v =
     \<lparr>ffmpeg_present = True,
      ffprobe = (\<lambda>p. ProbeData (Some \<lparr>format = Some \<lparr>duration = v\<rparr>\<rparr>)),
      ffmpeg_run = (\<lambda>j. None),
      path_dirname = (\<lambda>p. ''/tmp''),
      path_extname = (\<lambda>p. ''.mp3''),
      path_basename = (\<lambda>p e. ''a''),
      path_join = (\<lambda>d f. d @ ''/'' @ f)\<rparr>"

section \<open>The transcription module\<close>

subsection \<open>Results\<close>

text \<open>
  \<open>Segment\<close> and \<open>TranscriptionResult\<close> as the module declares them, with one
  difference. A result is the value of \<open>JSON.parse\<close> cast to \<open>TranscriptionResult\<close>, and
  the cast checks nothing: at run time the \<open>start\<close> and \<open>end\<close> of a segment hold
  whatever the parsed text held there. These two fields are therefore a \<open>field_value\<close>:
  a string, or \<open>NotStr\<close> for any other JSON value and for a missing property. The
  speaker and the text of a segment are only ever copied; they are optional, as the
  parsed text may lack them. The fields of a segment carry the prefix \<open>seg_\<close> (\<open>end\<close>
  and \<open>text\<close> are reserved words here). The segment list is optional because the code
  tests \<open>res?.segments?.length\<close>: the value may lack the property; when it is there it
  is taken to be an array of objects, which is what the response schema asks for and
  what a cut-off reply still holds after repair. A speaker count is an integer.
\<close>

datatype field_value = Str string | NotStr

record Segment =
  seg_start :: field_value
  seg_end :: field_value
  seg_speaker :: "string option"
  seg_text :: "string option"

record TranscriptionResult =
  segments :: "Segment list option"
  summary :: "string option"
  detected_language :: "string option"
  speakers_count :: "int option"

text \<open>The test \<open>res?.segments?.length\<close>: true for a result with at least one segment.\<close>

definition has_segments :: "TranscriptionResult option \<Rightarrow> bool" where
  "has_segments res =
     (case res of
        None \<Rightarrow> False
      | Some r \<Rightarrow> (case segments r of None \<Rightarrow> False | Some segs \<Rightarrow> segs \<noteq> []))"

subsection \<open>Parsing the model's reply\<close>

text \<open>
  \<open>JSON.parse\<close> (cast to \<open>TranscriptionResult\<close>; \<open>Inr None\<close> is the JSON value \<open>null\<close>)
  and \<open>jsonrepair\<close> are library functions; both may throw.
\<close>

record json_lib =
  JSON_parse :: "string \<Rightarrow> message + TranscriptionResult option"
  jsonrepair :: "string \<Rightarrow> message + string"

definition parseGeminiJson :: "json_lib \<Rightarrow> string \<Rightarrow> message + TranscriptionResult option" where
  "parseGeminiJson lib rawText =
     (if trim rawText = [] then Inr None
      else (case JSON_parse lib rawText of
              Inr v \<Rightarrow> Inr v
            | Inl _ \<Rightarrow>
                (case jsonrepair lib rawText of
                   Inl _ \<Rightarrow> Inr None
                 | Inr repaired \<Rightarrow>
                     (case JSON_parse lib repaired of
                        Inr v \<Rightarrow> Inr v
                      | Inl _ \<Rightarrow> Inr None))))"

subsection \<open>The transcription service\<close>

text \<open>
  The display name of a chunk: the file name, or the file name with
  "(part \<open>k\<close> of \<open>n\<close>)" appended.
\<close>

datatype display_name = WholeFile string | PartOf string nat nat

record uploaded =
  up_name :: string
  up_uri :: string
  up_mimeType :: string

datatype file_state = PROCESSING | ACTIVE | FAILED | OtherState string

fun state_name :: "file_state \<Rightarrow> string" where
  "state_name PROCESSING = ''PROCESSING''"
| "state_name ACTIVE = ''ACTIVE''"
| "state_name FAILED = ''FAILED''"
| "state_name (OtherState s) = s"

text \<open>
  What the service answers during one attempt on one chunk: to the upload, to the
  \<open>k\<close>-th \<open>files.get\<close> of the attempt, and to \<open>generateContent\<close> (the \<open>text\<close> of the
  reply, which may be undefined). \<open>Inl\<close> is a rejected call.
\<close>

record attempt_replies =
  upload_reply :: "message + uploaded"
  get_reply :: "nat \<Rightarrow> message + file_state"
  generate_reply :: "message + string option"

text \<open>
  The service is asked by file path, MIME type, display name and attempt number, so
  that a retry may be answered differently from the attempt before it.
\<close>

record ai_env =
  replies :: "string \<Rightarrow> string \<Rightarrow> display_name \<Rightarrow> nat \<Rightarrow> attempt_replies"
  json :: json_lib

subsection \<open>Effects\<close>

text \<open>
  What a run does to the outside world, in order: calls to the service, sleeps, local
  file deletions, log lines, encoder runs, and writes to the task store (accepted or
  rejected).
\<close>

datatype status = Processing | Completed | Failed

record TaskUpdate =
  upd_status :: "status option"
  upd_error_message :: "message option"
  upd_result :: "TranscriptionResult option"
  upd_language :: "string option"
  upd_speakers_count :: "int option"
  upd_processed_at :: "int option"

datatype event =
    Upload string string display_name
  | GetFile string
  | PollSleep nat
  | Generate string string
  | DeleteRemote string
  | Unlink string
  | BackoffSleep nat
  | LogAttemptFailed nat display_name message
  | LogPipelineError message
  | Encode ffjob
  | StoreWrite string TaskUpdate
  | StoreRejected string TaskUpdate message

subsection \<open>\<open>runSingleChunk\<close>\<close>

text \<open>
  The wait for remote processing: \<open>while (state === "PROCESSING" && waitAttempts < 60)\<close>.
  The first argument counts the iterations still allowed, \<open>k\<close> numbers the
  \<open>files.get\<close> calls of the attempt.
\<close>

fun poll_loop ::
  "nat \<Rightarrow> (nat \<Rightarrow> message + file_state) \<Rightarrow> string \<Rightarrow> nat \<Rightarrow> file_state
     \<Rightarrow> event list \<times> (message + file_state)" where
  "poll_loop 0 get nm k st = ([], Inr st)"
| "poll_loop (Suc left) get nm k st =
     (if st = PROCESSING then
        (case get k of
           Inl e \<Rightarrow> ([PollSleep 2000, GetFile nm], Inl e)
         | Inr st' \<Rightarrow>
             (case poll_loop left get nm (Suc k) st' of
                (ev, r) \<Rightarrow> (PollSleep 2000 # GetFile nm # ev, r)))
      else ([], Inr st))"

text \<open>
  The body of the \<open>try\<close> block of one attempt. It returns the events, the value of the
  variable \<open>geminiFileName\<close> where the block is left, and either the accepted result
  (\<open>Inr\<close>) or the error thrown to the \<open>catch\<close> block (\<open>Inl\<close>).
\<close>

definition attempt_body ::
  "ai_env \<Rightarrow> string \<Rightarrow> display_name \<Rightarrow> string \<Rightarrow> nat \<Rightarrow> string option
     \<Rightarrow> event list \<times> string option \<times> (message + TranscriptionResult)" where
  "attempt_body env filePath displayName mimeType attempt geminiFileName =
     (let rep = replies env filePath mimeType displayName attempt;
          ev1 = [Upload filePath mimeType displayName]
      in case upload_reply rep of
           Inl e \<Rightarrow> (ev1, geminiFileName, Inl e)
         | Inr uploadResult \<Rightarrow>
             (let nm = up_name uploadResult; ev2 = ev1 @ [GetFile nm]
              in case get_reply rep 0 of
                   Inl e \<Rightarrow> (ev2, Some nm, Inl e)
                 | Inr st0 \<Rightarrow>
                     (case poll_loop 60 (get_reply rep) nm 1 st0 of
                        (pev, Inl e) \<Rightarrow> (ev2 @ pev, Some nm, Inl e)
                      | (pev, Inr currentFile) \<Rightarrow>
                          if currentFile \<noteq> ACTIVE
                          then (ev2 @ pev, Some nm, Inl (FileState (state_name currentFile)))
                          else
                            (let ev3 = ev2 @ pev
                                         @ [Generate (up_uri uploadResult) (up_mimeType uploadResult)]
                             in case generate_reply rep of
                                  Inl e \<Rightarrow> (ev3, Some nm, Inl e)
                                | Inr txt \<Rightarrow>
                                    (let rawText = (case txt of None \<Rightarrow> [] | Some t \<Rightarrow> trim t)
                                     in case parseGeminiJson (json env) rawText of
                                          Inl e \<Rightarrow> (ev3, Some nm, Inl e)
                                        | Inr parsed \<Rightarrow>
                                            (let ev4 = ev3 @ [DeleteRemote nm]
                                             in case parsed of
                                                  None \<Rightarrow> (ev4, None, Inl EmptyOrInvalidSegments)
                                                | Some r \<Rightarrow>
                                                    if has_segments (Some r)
                                                    then (ev4 @ [Unlink filePath], None, Inr r)
                                                    else (ev4, None, Inl EmptyOrInvalidSegments)))))))"

text \<open>The test \<open>if (geminiFileName)\<close> of the \<open>catch\<close> block, with the deletion it guards.\<close>

definition cleanup_remote :: "string option \<Rightarrow> event list" where
  "cleanup_remote geminiFileName =
     (case geminiFileName of
        None \<Rightarrow> []
      | Some nm \<Rightarrow> if nm = [] then [] else [DeleteRemote nm])"

definition emit :: "event list \<Rightarrow> event list \<times> 'a \<Rightarrow> event list \<times> 'a" where
  "emit ev r = (ev @ fst r, snd r)"

text \<open>
  The loop \<open>for (let attempt = 0; attempt <= retries; attempt++)\<close>, entered at
  \<open>attempt\<close> with the current value of \<open>geminiFileName\<close>.
\<close>

function retry_loop ::
  "ai_env \<Rightarrow> string \<Rightarrow> display_name \<Rightarrow> string \<Rightarrow> nat \<Rightarrow> nat \<Rightarrow> string option
     \<Rightarrow> event list \<times> TranscriptionResult option" where
  "retry_loop env filePath displayName mimeType retries attempt geminiFileName =
     (if attempt \<le> retries then
        (case attempt_body env filePath displayName mimeType attempt geminiFileName of
           (ev, gfn, Inr parsed) \<Rightarrow> (ev, Some parsed)
         | (ev, gfn, Inl err) \<Rightarrow>
             (let ev' = ev @ [LogAttemptFailed (attempt + 1) displayName err] @ cleanup_remote gfn
              in if attempt = retries then (ev' @ [Unlink filePath], None)
                 else emit (ev' @ [BackoffSleep (2 ^ attempt * 2000)])
                        (retry_loop env filePath displayName mimeType retries (Suc attempt) gfn)))
      else ([], None))"
  by pat_completeness auto
termination
  by (relation "measure (\<lambda>(env, filePath, displayName, mimeType, retries, attempt, gfn).
                  Suc retries - attempt)") auto

declare retry_loop.simps [simp del]

definition runSingleChunk ::
  "ai_env \<Rightarrow> string \<Rightarrow> display_name \<Rightarrow> string \<Rightarrow> nat
     \<Rightarrow> event list \<times> TranscriptionResult option" where
  "runSingleChunk env filePath displayName mimeType retries =
     retry_loop env filePath displayName mimeType retries 0 None"

subsection \<open>The task store\<close>

text \<open>
  \<open>directusRequest\<close> sends the request with \<open>fetch\<close> and throws unless the reply is
  \<open>ok\<close> (a status from 200 to 299). The store answers the \<open>k\<close>-th request of a run,
  for a task id and a payload, with a rejected \<open>fetch\<close> or an HTTP status and body; the
  body of an \<open>ok\<close> reply is taken to be JSON, so that reading it does not throw.
\<close>

datatype fetch_reply = FetchRejected string | HttpReply nat string

record store_env =
  store_reply :: "nat \<Rightarrow> string \<Rightarrow> TaskUpdate \<Rightarrow> fetch_reply"

definition directusRequest :: "fetch_reply \<Rightarrow> message + unit" where
  "directusRequest res =
     (case res of
        FetchRejected m \<Rightarrow> Inl (Text m)
      | HttpReply st body \<Rightarrow>
          if 200 \<le> st \<and> st \<le> 299 then Inr () else Inl (DirectusError st body))"

fun is_store_event :: "event \<Rightarrow> bool" where
  "is_store_event (StoreWrite _ _) = True"
| "is_store_event (StoreRejected _ _ _) = True"
| "is_store_event _ = False"

definition store_calls :: "event list \<Rightarrow> nat" where
  "store_calls tr = length (filter is_store_event tr)"

subsection \<open>The state of a run\<close>

text \<open>
  The effects so far, the two variables the concurrent chunk tasks share (the array
  \<open>results\<close> and the counter \<open>completedChunks\<close>), and the chunk tasks that are still
  running when their window has been rejected: \<open>Promise.all\<close> rejects with the first
  rejection and cancels nothing, so these tasks go on in the background. Each is the
  list of chunk paths with the task's index. A step of the run maps a state to the next
  state and either a value or a thrown error.
\<close>

record run_state =
  trace :: "event list"
  results :: "TranscriptionResult option list"
  completedChunks :: nat
  background :: "(string list \<times> nat) list"

type_synonym 'a step = "run_state \<Rightarrow> run_state \<times> (message + 'a)"

definition seq :: "'a step \<Rightarrow> ('a \<Rightarrow> 'b step) \<Rightarrow> 'b step" where
  "seq m f st = (case m st of (st', Inl e) \<Rightarrow> (st', Inl e) | (st', Inr a) \<Rightarrow> f a st')"

definition emit_events :: "event list \<Rightarrow> run_state \<Rightarrow> run_state" where
  "emit_events ev st = st\<lparr>trace := trace st @ ev\<rparr>"

definition updateTask :: "store_env \<Rightarrow> string \<Rightarrow> TaskUpdate \<Rightarrow> unit step" where
  "updateTask store taskId data st =
     (case directusRequest (store_reply store (store_calls (trace st)) taskId data) of
        Inl e \<Rightarrow> (emit_events [StoreRejected taskId data e] st, Inl e)
      | Inr _ \<Rightarrow> (emit_events [StoreWrite taskId data] st, Inr ()))"

definition no_update :: TaskUpdate where
  "no_update = \<lparr>upd_status = None, upd_error_message = None, upd_result = None,
                 upd_language = None, upd_speakers_count = None, upd_processed_at = None\<rparr>"

definition message_update :: "message \<Rightarrow> TaskUpdate" where
  "message_update m = no_update\<lparr>upd_error_message := Some m\<rparr>"

definition failed_update :: "message \<Rightarrow> TaskUpdate" where
  "failed_update m = no_update\<lparr>upd_status := Some Failed, upd_error_message := Some m\<rparr>"

subsection \<open>\<open>runGeminiTranscription\<close>\<close>

text \<open>
  Everything outside the module: the media tool, the transcription service, the task
  store, the environment variable \<open>GEMINI_API_KEY\<close>, the order in which the chunk
  tasks of a window complete, and the seconds the clock shows as elapsed at the end.
\<close>

record env =
  media :: media_env
  ai :: ai_env
  store :: store_env
  api_key :: "string option"
  completion_order :: "nat list \<Rightarrow> nat list"
  elapsed_seconds :: int

definition CONCURRENCY :: nat where
  "CONCURRENCY = 2"

definition display_name_of :: "string \<Rightarrow> nat \<Rightarrow> nat \<Rightarrow> display_name" where
  "display_name_of fileName totalChunks i =
     (if totalChunks = 1 then WholeFile fileName else PartOf fileName (i + 1) totalChunks)"

definition start_message :: "nat \<Rightarrow> nat \<Rightarrow> message" where
  "start_message totalChunks i =
     (if totalChunks = 1 then SendingToAI else ProcessingPart (i + 1) totalChunks)"

text \<open>\<open>15 + Math.round((completedChunks / totalChunks) * 75)\<close>, on rationals.\<close>

definition progress_pct :: "nat \<Rightarrow> nat \<Rightarrow> int" where
  "progress_pct completed totalChunks =
     15 + \<lfloor>(of_nat completed / of_nat totalChunks) * 75 + (1 / 2 :: rat)\<rfloor>"

text \<open>
  \<open>processBatch\<close>. Every chunk task of the window starts by writing its start message.
  The tasks are started one after the other in index order and each runs up to its
  first \<open>await\<close>, so all start writes of the window are issued, in index order, before
  any of them is answered: \<open>announce\<close> issues them all and returns the answers.

  If a start write is rejected, the task that issued it ends there and \<open>Promise.all\<close>
  rejects the batch with the first rejection; the tasks whose start write was accepted
  run on in the background. Otherwise the tasks run their chunks and complete in the
  order \<open>completion_order\<close> gives for the window; this model lets each chunk run to its
  end before the next one completes, where a real run may interleave their calls to the
  service. A task that completes stores its result at its own index, counts itself, and
  writes the progress message (\<open>chunk_task\<close>). If that write is rejected the batch is
  rejected, and the tasks of the window that have not completed yet run on in the
  background.
\<close>

fun announce ::
  "env \<Rightarrow> string \<Rightarrow> nat \<Rightarrow> nat list \<Rightarrow> run_state
     \<Rightarrow> run_state \<times> (nat \<times> (message + unit)) list" where
  "announce env taskId totalChunks [] st = (st, [])"
| "announce env taskId totalChunks (i # rest) st =
     (case updateTask (store env) taskId (message_update (start_message totalChunks i)) st of
        (st1, r) \<Rightarrow>
          (case announce env taskId totalChunks rest st1 of
             (st2, rs) \<Rightarrow> (st2, (i, r) # rs)))"

fun first_rejection :: "(nat \<times> (message + unit)) list \<Rightarrow> message option" where
  "first_rejection [] = None"
| "first_rejection ((i, Inl e) # rs) = Some e"
| "first_rejection ((i, Inr _) # rs) = first_rejection rs"

fun accepted_starts :: "(nat \<times> (message + unit)) list \<Rightarrow> nat list" where
  "accepted_starts [] = []"
| "accepted_starts ((i, Inl e) # rs) = accepted_starts rs"
| "accepted_starts ((i, Inr _) # rs) = i # accepted_starts rs"

definition chunk_result ::
  "env \<Rightarrow> string \<Rightarrow> string \<Rightarrow> string list \<Rightarrow> nat \<Rightarrow> event list \<times> TranscriptionResult option" where
  "chunk_result env fileName mimeType chunkPaths i =
     runSingleChunk (ai env) (chunkPaths ! i) (display_name_of fileName (length chunkPaths) i)
       mimeType 2"

text \<open>A chunk task after its start write.\<close>

definition chunk_task ::
  "env \<Rightarrow> string \<Rightarrow> string \<Rightarrow> string \<Rightarrow> string list \<Rightarrow> nat \<Rightarrow> unit step" where
  "chunk_task env taskId fileName mimeType chunkPaths i st =
     (let totalChunks = length chunkPaths;
          (ev, chunkResult) = chunk_result env fileName mimeType chunkPaths i;
          st1 = st\<lparr>trace := trace st @ ev,
                   results := (results st)[i := chunkResult],
                   completedChunks := completedChunks st + 1\<rparr>;
          pct = progress_pct (completedChunks st1) totalChunks
      in updateTask (store env) taskId
           (message_update (ProcessingPartPct (i + 1) totalChunks pct)) st1)"

fun complete ::
  "env \<Rightarrow> string \<Rightarrow> string \<Rightarrow> string \<Rightarrow> string list \<Rightarrow> nat list \<Rightarrow> unit step" where
  "complete env taskId fileName mimeType chunkPaths [] st = (st, Inr ())"
| "complete env taskId fileName mimeType chunkPaths (i # rest) st =
     (case chunk_task env taskId fileName mimeType chunkPaths i st of
        (st', Inl e) \<Rightarrow> (st'\<lparr>background := map (Pair chunkPaths) rest\<rparr>, Inl e)
      | (st', Inr _) \<Rightarrow> complete env taskId fileName mimeType chunkPaths rest st')"

definition processBatch ::
  "env \<Rightarrow> string \<Rightarrow> string \<Rightarrow> string \<Rightarrow> string list \<Rightarrow> nat list \<Rightarrow> unit step" where
  "processBatch env taskId fileName mimeType chunkPaths indices st =
     (case announce env taskId (length chunkPaths) indices st of
        (st1, answers) \<Rightarrow>
          (case first_rejection answers of
             Some e \<Rightarrow>
               (st1\<lparr>background :=
                      map (Pair chunkPaths)
                        (filter (\<lambda>i. i \<in> set (accepted_starts answers))
                           (completion_order env indices))\<rparr>,
                Inl e)
           | None \<Rightarrow>
               complete env taskId fileName mimeType chunkPaths
                 (completion_order env indices) st1))"

text \<open>
  The chunk tasks left in the background run to their end, in their order of
  completion; nothing awaits them any more, so a rejected progress write of theirs has
  no further effect.
\<close>

fun run_background ::
  "env \<Rightarrow> string \<Rightarrow> string \<Rightarrow> string \<Rightarrow> (string list \<times> nat) list \<Rightarrow> run_state \<Rightarrow> run_state" where
  "run_background env taskId fileName mimeType [] st = st"
| "run_background env taskId fileName mimeType ((chunkPaths, i) # rest) st =
     run_background env taskId fileName mimeType rest
       (fst (chunk_task env taskId fileName mimeType chunkPaths i st))"

text \<open>The indices \<open>j\<close> with \<open>i \<le> j < i + CONCURRENCY\<close> and \<open>j < totalChunks\<close>.\<close>

definition window_indices :: "nat \<Rightarrow> nat \<Rightarrow> nat list" where
  "window_indices i totalChunks = [i..<min (i + CONCURRENCY) totalChunks]"

function window_loop ::
  "env \<Rightarrow> string \<Rightarrow> string \<Rightarrow> string \<Rightarrow> string list \<Rightarrow> nat \<Rightarrow> unit step" where
  "window_loop env taskId fileName mimeType chunkPaths i st =
     (if i < length chunkPaths then
        (case processBatch env taskId fileName mimeType chunkPaths
                (window_indices i (length chunkPaths)) st of
           (st', Inl e) \<Rightarrow> (st', Inl e)
         | (st', Inr _) \<Rightarrow>
             window_loop env taskId fileName mimeType chunkPaths (i + CONCURRENCY) st')
      else (st, Inr ()))"
  by pat_completeness auto
termination
  by (relation "measure (\<lambda>(env, taskId, fileName, mimeType, chunkPaths, i, st).
                  length chunkPaths - i)") (auto simp: CONCURRENCY_def)

declare window_loop.simps [simp del]

text \<open>The accumulators of the merge loop.\<close>

record merge_acc =
  allSegments :: "Segment list"
  summaries :: "string list"
  detectedLanguage :: string
  speakersCount :: int

text \<open>
  The call \<open>addOffsetToTimestamp(v, offsetSec)\<close> on a run-time value \<open>v\<close>: the function
  begins with \<open>timeStr.trim()\<close>, which throws a \<open>TypeError\<close> unless \<open>v\<close> is a string.
\<close>

definition offset_field :: "field_value \<Rightarrow> int \<Rightarrow> message + string" where
  "offset_field v offsetSec =
     (case v of
        Str timeStr \<Rightarrow> Inr (addOffsetToTimestamp timeStr offsetSec)
      | NotStr \<Rightarrow> Inl TrimTypeError)"

text \<open>The callback of \<open>res.segments.map\<close>: the start is shifted first, then the end.\<close>

definition adjust_segment :: "int \<Rightarrow> Segment \<Rightarrow> message + Segment" where
  "adjust_segment offsetSec seg =
     (case offset_field (seg_start seg) offsetSec of
        Inl e \<Rightarrow> Inl e
      | Inr s \<Rightarrow>
          (case offset_field (seg_end seg) offsetSec of
             Inl e \<Rightarrow> Inl e
           | Inr t \<Rightarrow> Inr (seg\<lparr>seg_start := Str s, seg_end := Str t\<rparr>)))"

fun adjust_all :: "int \<Rightarrow> Segment list \<Rightarrow> message + Segment list" where
  "adjust_all offsetSec [] = Inr []"
| "adjust_all offsetSec (seg # segs) =
     (case adjust_segment offsetSec seg of
        Inl e \<Rightarrow> Inl e
      | Inr a \<Rightarrow>
          (case adjust_all offsetSec segs of
             Inl e \<Rightarrow> Inl e
           | Inr adjusted \<Rightarrow> Inr (a # adjusted)))"

text \<open>One round of the merge loop, for index \<open>i\<close> and \<open>res = results[i]\<close>.\<close>

definition merge_step ::
  "nat \<Rightarrow> TranscriptionResult option \<Rightarrow> merge_acc \<Rightarrow> message + merge_acc" where
  "merge_step i res acc =
     (case res of
        None \<Rightarrow> Inr acc
      | Some r \<Rightarrow>
          (case segments r of
             None \<Rightarrow> Inr acc
           | Some segs \<Rightarrow>
               if segs = [] then Inr acc
               else
                 (case adjust_all (int i * CHUNK_DURATION_SEC) segs of
                    Inl e \<Rightarrow> Inl e
                  | Inr adjusted \<Rightarrow>
                      Inr \<lparr>allSegments = allSegments acc @ adjusted,
                           summaries =
                             (case summary r of
                                None \<Rightarrow> summaries acc
                              | Some s \<Rightarrow> if s = [] then summaries acc else summaries acc @ [s]),
                           detectedLanguage =
                             (case detected_language r of
                                None \<Rightarrow> detectedLanguage acc
                              | Some l \<Rightarrow> if l = [] then detectedLanguage acc else l),
                           speakersCount =
                             (case speakers_count r of
                                None \<Rightarrow> speakersCount acc
                              | Some c \<Rightarrow> if c = 0 then speakersCount acc
                                          else max (speakersCount acc) c)\<rparr>)))"

fun merge_loop ::
  "TranscriptionResult option list \<Rightarrow> nat list \<Rightarrow> merge_acc \<Rightarrow> message + merge_acc" where
  "merge_loop rs [] acc = Inr acc"
| "merge_loop rs (i # idxs) acc =
     (case merge_step i (rs ! i) acc of
        Inl e \<Rightarrow> Inl e
      | Inr acc' \<Rightarrow> merge_loop rs idxs acc')"

definition merge_results :: "TranscriptionResult option list \<Rightarrow> message + merge_acc" where
  "merge_results rs =
     merge_loop rs [0..<length rs]
       \<lparr>allSegments = [], summaries = [], detectedLanguage = [], speakersCount = 0\<rparr>"

text \<open>\<open>xs.join(sep)\<close>.\<close>

fun join_with :: "string \<Rightarrow> string list \<Rightarrow> string" where
  "join_with sep [] = []"
| "join_with sep [x] = x"
| "join_with sep (x # y # ys) = x @ sep @ join_with sep (y # ys)"

definition blank_line :: string where
  "blank_line = [CHR 0x0A, CHR 0x0A]"

definition final_result :: "merge_acc \<Rightarrow> TranscriptionResult" where
  "final_result acc =
     \<lparr>segments = Some (allSegments acc),
      summary = Some (join_with blank_line (summaries acc)),
      detected_language = (if detectedLanguage acc = [] then None else Some (detectedLanguage acc)),
      speakers_count = Some (if speakersCount acc = 0 then 1 else speakersCount acc)\<rparr>"

definition completed_update :: "env \<Rightarrow> merge_acc \<Rightarrow> TaskUpdate" where
  "completed_update env acc =
     \<lparr>upd_status = Some Completed,
      upd_error_message = None,
      upd_result = Some (final_result acc),
      upd_language = Some (detectedLanguage acc),
      upd_speakers_count = Some (if speakersCount acc = 0 then 1 else speakersCount acc),
      upd_processed_at = Some (elapsed_seconds env)\<rparr>"

definition split_step :: "env \<Rightarrow> string \<Rightarrow> string list step" where
  "split_step env tempFilePath st =
     (case splitAudioIntoChunks (media env) tempFilePath of
        (jobs, r) \<Rightarrow> (emit_events (map Encode jobs) st, r))"

definition finish :: "env \<Rightarrow> string \<Rightarrow> string \<Rightarrow> string list \<Rightarrow> unit step" where
  "finish env taskId tempFilePath chunkPaths st =
     (let totalChunks = length chunkPaths
      in case merge_results (results st) of
           Inl e \<Rightarrow> (st, Inl e)
         | Inr acc \<Rightarrow>
             if allSegments acc = [] then (st, Inl NoSegmentsFromAnyFragment)
             else
               (let st1 = (if totalChunks > 1 \<or> (totalChunks = 1 \<and> chunkPaths ! 0 \<noteq> tempFilePath)
                           then emit_events [Unlink tempFilePath] st else st)
                in updateTask (store env) taskId (completed_update env acc) st1))"

text \<open>The body of the \<open>try\<close> block.\<close>

definition pipeline_body :: "env \<Rightarrow> string \<Rightarrow> string \<Rightarrow> string \<Rightarrow> string \<Rightarrow> unit step" where
  "pipeline_body env taskId tempFilePath fileName mimeType =
     seq (updateTask (store env) taskId (message_update AnalysingAudio)) (\<lambda>_.
     seq (\<lambda>st. (st, getAudioDuration (media env) tempFilePath)) (\<lambda>durationSec.
     seq (updateTask (store env) taskId (message_update PreparingFragments)) (\<lambda>_.
     seq (split_step env tempFilePath) (\<lambda>chunkPaths.
     seq (\<lambda>st. window_loop env taskId fileName mimeType chunkPaths 0
                 (st\<lparr>results := replicate (length chunkPaths) None, completedChunks := 0\<rparr>)) (\<lambda>_.
     seq (updateTask (store env) taskId (message_update AssemblingResult)) (\<lambda>_.
     finish env taskId tempFilePath chunkPaths))))))"

definition initial_state :: run_state where
  "initial_state = \<lparr>trace = [], results = [], completedChunks = 0, background = []\<rparr>"

text \<open>
  The whole function. The outcome is that of the promise it returns. The state also
  holds what the chunk tasks left in the background do afterwards: in this model every
  write is answered before the next event, and the background tasks, which still have
  a chunk to transcribe, resume once the handler has finished.
\<close>

definition runGeminiTranscription ::
  "env \<Rightarrow> string \<Rightarrow> string \<Rightarrow> string \<Rightarrow> string \<Rightarrow> run_state \<times> (message + unit)" where
  "runGeminiTranscription env taskId tempFilePath fileName mimeType =
     (if api_key env = None \<or> api_key env = Some [] then
        updateTask (store env) taskId (failed_update ApiKeyNotConfigured) initial_state
      else
        (case pipeline_body env taskId tempFilePath fileName mimeType initial_state of
           (st, Inr _) \<Rightarrow> (st, Inr ())
         | (st, Inl err) \<Rightarrow>
             (case updateTask (store env) taskId (failed_update err)
                     (emit_events [LogPipelineError err] st) of
                (st', Inl e) \<Rightarrow>
                  (run_background env taskId fileName mimeType (background st') st', Inl e)
              | (st', Inr _) \<Rightarrow>
                  (run_background env taskId fileName mimeType (background st')
                     (emit_events [Unlink tempFilePath] st'),
                   Inr ()))))"

text \<open>The updates the store accepted during a run, in order.\<close>

fun accepted_update :: "event \<Rightarrow> TaskUpdate option" where
  "accepted_update (StoreWrite _ u) = Some u"
| "accepted_update _ = None"

definition store_writes :: "event list \<Rightarrow> TaskUpdate list" where
  "store_writes tr = List.map_filter accepted_update tr"

section \<open>Notions used to state the properties\<close>

text \<open>The assignment \<open>results[i] = chunkResult\<close> of the chunk task for index \<open>i\<close>.\<close>

definition store_chunk ::
  "env \<Rightarrow> string \<Rightarrow> string \<Rightarrow> string list \<Rightarrow> nat
     \<Rightarrow> TranscriptionResult option list \<Rightarrow> TranscriptionResult option list" where
  "store_chunk env fn mt paths i rs = rs[i := snd (chunk_result env fn mt paths i)]"

text \<open>The last update the store accepted in a run, if any: the state the task is left in.\<close>

definition final_write :: "run_state \<times> (message + unit) \<Rightarrow> TaskUpdate option" where
  "final_write r =
     (case store_writes (trace (fst r)) of [] \<Rightarrow> None | w # ws \<Rightarrow> Some (last (w # ws)))"

text \<open>
  The status the task is left with: the last status that an accepted update has set.
  A progress message sets none.
\<close>

definition final_status :: "run_state \<times> (message + unit) \<Rightarrow> status option" where
  "final_status r =
     (case List.map_filter upd_status (store_writes (trace (fst r))) of
        [] \<Rightarrow> None
      | s # ss \<Rightarrow> Some (last (s # ss)))"

text \<open>
  The merge as the specification words it. A chunk survives when its result has at
  least one segment. The merged segments are the surviving chunks' segments in index
  order, each shifted by the chunk's index times the chunk duration; the summary joins
  the non-empty summaries of the surviving chunks with a blank line; the language is
  the last non-empty one; the speaker count is the largest one, and at least 1.
  A timecode can be shifted when it is a string; \<open>strings_only\<close> holds of a result
  whose segments all have a string as start and as end, as the type \<open>Segment\<close> declares.
\<close>

definition chunk_segments :: "TranscriptionResult option \<Rightarrow> Segment list" where
  "chunk_segments res =
     (case res of None \<Rightarrow> [] | Some r \<Rightarrow> (case segments r of None \<Rightarrow> [] | Some segs \<Rightarrow> segs))"

definition surviving_on :: "TranscriptionResult option list \<Rightarrow> nat list \<Rightarrow> (nat \<times> TranscriptionResult) list" where
  "surviving_on rs idxs =
     List.map_filter
       (\<lambda>i. case rs ! i of
              None \<Rightarrow> None
            | Some r \<Rightarrow> if has_segments (Some r) then Some (i, r) else None) idxs"

definition surviving :: "TranscriptionResult option list \<Rightarrow> (nat \<times> TranscriptionResult) list" where
  "surviving rs = surviving_on rs [0..<length rs]"

fun is_string :: "field_value \<Rightarrow> bool" where
  "is_string (Str s) = True"
| "is_string NotStr = False"

definition strings_only :: "TranscriptionResult option \<Rightarrow> bool" where
  "strings_only res =
     list_all (\<lambda>seg. is_string (seg_start seg) \<and> is_string (seg_end seg)) (chunk_segments res)"

fun shift_field :: "int \<Rightarrow> field_value \<Rightarrow> field_value" where
  "shift_field offsetSec (Str s) = Str (addOffsetToTimestamp s offsetSec)"
| "shift_field offsetSec NotStr = NotStr"

definition shift_segment :: "int \<Rightarrow> Segment \<Rightarrow> Segment" where
  "shift_segment offsetSec seg =
     seg\<lparr>seg_start := shift_field offsetSec (seg_start seg),
         seg_end := shift_field offsetSec (seg_end seg)\<rparr>"

definition shifted_segments :: "nat \<times> TranscriptionResult \<Rightarrow> Segment list" where
  "shifted_segments ir =
     map (shift_segment (int (fst ir) * CHUNK_DURATION_SEC)) (chunk_segments (Some (snd ir)))"

definition nonempty_strings :: "string option list \<Rightarrow> string list" where
  "nonempty_strings xs = filter (\<lambda>s. s \<noteq> []) (List.map_filter (\<lambda>x. x) xs)"

definition spec_segments :: "(nat \<times> TranscriptionResult) list \<Rightarrow> Segment list" where
  "spec_segments sv = concat (map shifted_segments sv)"

definition spec_summary :: "(nat \<times> TranscriptionResult) list \<Rightarrow> string" where
  "spec_summary sv = join_with blank_line (nonempty_strings (map (\<lambda>ir. summary (snd ir)) sv))"

definition spec_language :: "(nat \<times> TranscriptionResult) list \<Rightarrow> string option" where
  "spec_language sv =
     (case nonempty_strings (map (\<lambda>ir. detected_language (snd ir)) sv) of
        [] \<Rightarrow> None
      | l # ls \<Rightarrow> Some (last (l # ls)))"

definition spec_speakers :: "(nat \<times> TranscriptionResult) list \<Rightarrow> int" where
  "spec_speakers sv = Max (insert 1 (set (List.map_filter (\<lambda>ir. speakers_count (snd ir)) sv)))"

definition spec_merge :: "TranscriptionResult option list \<Rightarrow> TranscriptionResult" where
  "spec_merge rs =
     \<lparr>segments = Some (spec_segments (surviving rs)),
      summary = Some (spec_summary (surviving rs)),
      detected_language = spec_language (surviving rs),
      speakers_count = Some (spec_speakers (surviving rs))\<rparr>"

text \<open>
  The results of processing the chunks strictly one after the other in index order:
  chunk \<open>i\<close> is transcribed and its result put at position \<open>i\<close>.
\<close>

definition sequential_results ::
  "env \<Rightarrow> string \<Rightarrow> string \<Rightarrow> string list \<Rightarrow> TranscriptionResult option list" where
  "sequential_results env fileName mimeType chunkPaths =
     map (\<lambda>i. snd (runSingleChunk (ai env) (chunkPaths ! i)
                      (display_name_of fileName (length chunkPaths) i) mimeType 2))
       [0..<length chunkPaths]"

text \<open>The uploads a trace contains, and the lengths of its back-off waits in order.\<close>

fun is_upload :: "event \<Rightarrow> bool" where
  "is_upload (Upload _ _ _) = True"
| "is_upload _ = False"

definition upload_count :: "event list \<Rightarrow> nat" where
  "upload_count tr = length (filter is_upload tr)"

fun backoff_of :: "event \<Rightarrow> nat option" where
  "backoff_of (BackoffSleep ms) = Some ms"
| "backoff_of _ = None"

definition backoffs :: "event list \<Rightarrow> nat list" where
  "backoffs tr = List.map_filter backoff_of tr"

text \<open>
  The errors of the rejected writes of a trace, in order. A rejected write is not
  absorbed: if the events of a step contain a rejected write, the step throws the error
  of the first one.
\<close>

fun rejected_error :: "event \<Rightarrow> message option" where
  "rejected_error (StoreRejected _ _ e) = Some e"
| "rejected_error _ = None"

definition rejections :: "event list \<Rightarrow> message list" where
  "rejections tr = List.map_filter rejected_error tr"

definition rejection_first :: "event list \<Rightarrow> message + 'a \<Rightarrow> bool" where
  "rejection_first ev r = (case rejections ev of [] \<Rightarrow> True | e # es \<Rightarrow> r = Inl e)"

definition propagates :: "'a step \<Rightarrow> bool" where
  "propagates m =
     (\<forall>st st' r. m st = (st', r) \<longrightarrow> (\<exists>ev. trace st' = trace st @ ev \<and> rejection_first ev r))"

text \<open>The updates that only set a progress message of a chunk.\<close>

definition is_progress_update :: "TaskUpdate \<Rightarrow> bool" where
  "is_progress_update u =
     (case upd_error_message u of
        Some (ProcessingPartPct k n pct) \<Rightarrow> u = message_update (ProcessingPartPct k n pct)
      | _ \<Rightarrow> False)"

text \<open>
  What the merge loop has accumulated after the indices \<open>idxs\<close>, starting from \<open>acc\<close>,
  in terms of the surviving chunks among them.
\<close>

definition merged_on :: "TranscriptionResult option list \<Rightarrow> nat list \<Rightarrow> merge_acc \<Rightarrow> merge_acc" where
  "merged_on rs idxs acc =
     \<lparr>allSegments = allSegments acc @ spec_segments (surviving_on rs idxs),
      summaries = summaries acc
        @ nonempty_strings (map (\<lambda>ir. summary (snd ir)) (surviving_on rs idxs)),
      detectedLanguage = last (detectedLanguage acc
        # nonempty_strings (map (\<lambda>ir. detected_language (snd ir)) (surviving_on rs idxs))),
      speakersCount = fold max
        (filter (\<lambda>c. c \<noteq> 0) (List.map_filter (\<lambda>ir. speakers_count (snd ir)) (surviving_on rs idxs)))
        (speakersCount acc)\<rparr>"

definition merged_acc :: "TranscriptionResult option list \<Rightarrow> merge_acc" where
  "merged_acc rs =
     merged_on rs [0..<length rs]
       \<lparr>allSegments = [], summaries = [], detectedLanguage = [], speakersCount = 0\<rparr>"

text \<open>The store accepts every write: each request is answered with an \<open>ok\<close> status.\<close>

definition store_accepts :: "env \<Rightarrow> bool" where
  "store_accepts env = (\<forall>k tid u. directusRequest (store_reply (store env) k tid u) = Inr ())"

section \<open>Sample environments\<close>

text \<open>
  Concrete collaborators on which the theorems below are exercised. The service replies
  to every upload, reports every file as active at once, and answers generation with
  the text \<open>good\<close>, except for the file paths in \<open>bad\<close>, for which generation is
  rejected on every attempt. The JSON library parses \<open>good\<close> to a result with one
  segment, \<open>empty\<close> to a result with an empty segment list, \<open>null\<close> to \<open>null\<close>, and
  repairs \<open>good,\<close> to \<open>good\<close>; it also repairs \<open>cut\<close>, a reply cut off after
  \<open>{"segments":[{"start":\<close>, to \<open>repaired\<close>, which it parses to a result whose only
  segment has \<open>null\<close> as start and no end. The store rejects the requests whose number
  is in \<open>rejected\<close> with status 503.
\<close>

definition sample_segment :: Segment where
  "sample_segment =
     \<lparr>seg_start = Str ''00:00:05'', seg_end = Str ''00:00:09'', seg_speaker = Some ''Speaker A'',
      seg_text = Some ''hello''\<rparr>"

definition cut_segment :: Segment where
  "cut_segment = \<lparr>seg_start = NotStr, seg_end = NotStr, seg_speaker = None, seg_text = None\<rparr>"

definition sample_result :: "string \<Rightarrow> string \<Rightarrow> int \<Rightarrow> TranscriptionResult" where
  "sample_result s l c =
     \<lparr>segments = Some [sample_segment], summary = Some s, detected_language = Some l,
      speakers_count = Some c\<rparr>"

definition sample_json :: json_lib where
  "sample_json =
     \<lparr>JSON_parse = (\<lambda>s. if s = ''good'' then Inr (Some (sample_result ''talk'' ''en'' 2))
                         else if s = ''empty''
                           then Inr (Some \<lparr>segments = Some [], summary = Some ''none'',
                                            detected_language = Some ''en'', speakers_count = Some 1\<rparr>)
                         else if s = ''null'' then Inr None
                         else if s = ''repaired''
                           then Inr (Some \<lparr>segments = Some [cut_segment], summary = None,
                                            detected_language = None, speakers_count = None\<rparr>)
                         else Inl (Text ''SyntaxError'')),
      jsonrepair = (\<lambda>s. if s = ''good,'' then Inr ''good''
                         else if s = ''cut'' then Inr ''repaired''
                         else Inl (Text ''JSONRepairError''))\<rparr>"

definition sample_ai :: "(string \<Rightarrow> bool) \<Rightarrow> ai_env" where
  "sample_ai bad =
     \<lparr>replies = (\<lambda>filePath mimeType displayName attempt.
         \<lparr>upload_reply = Inr \<lparr>up_name = ''files/x'', up_uri = ''uri/x'', up_mimeType = mimeType\<rparr>,
          get_reply = (\<lambda>k. Inr ACTIVE),
          generate_reply = (if bad filePath then Inl (Text ''503'') else Inr (Some ''good''))\<rparr>),
      json = sample_json\<rparr>"

definition sample_store :: "(nat \<Rightarrow> bool) \<Rightarrow> store_env" where
  "sample_store rejected =
     \<lparr>store_reply = (\<lambda>k tid u. if rejected k then HttpReply 503 ''unavailable''
                                 else HttpReply 200 ''ok'')\<rparr>"

definition sample_env :: "js_value \<Rightarrow> (string \<Rightarrow> bool) \<Rightarrow> (nat \<Rightarrow> bool) \<Rightarrow> env" where
  "sample_env dur bad rejected =
     \<lparr>media = sample_media dur, ai = sample_ai bad, store = sample_store rejected,
      api_key = Some ''key'', completion_order = rev, elapsed_seconds = 42\<rparr>"

text \<open>
  A 25-minute source cut into three chunks: in \<open>partial_env\<close> the second chunk fails on
  every attempt and the others succeed, in \<open>failing_env\<close> every chunk fails.
\<close>

definition partial_env :: env where
  "partial_env = sample_env (JNumber 1500) (\<lambda>p. p = ''/tmp/a_chunk_1.mp3'') (\<lambda>k. False)"


definition three_jobs :: "ffjob list" where
  "three_jobs =
     [\<lparr>job_input = ''/tmp/a.mp3'', job_start = 0, job_duration = 600,
        job_output = ''/tmp/a_chunk_0.mp3''\<rparr>,
      \<lparr>job_input = ''/tmp/a.mp3'', job_start = 600, job_duration = 600,
        job_output = ''/tmp/a_chunk_1.mp3''\<rparr>,
      \<lparr>job_input = ''/tmp/a.mp3'', job_start = 1200, job_duration = 300,
        job_output = ''/tmp/a_chunk_2.mp3''\<rparr>]"

definition three_paths :: "string list" where
  "three_paths = [''/tmp/a_chunk_0.mp3'', ''/tmp/a_chunk_1.mp3'', ''/tmp/a_chunk_2.mp3'']"

text \<open>
  Three chunk results with detected languages \<open>""\<close>, \<open>"en"\<close>, \<open>""\<close> and speaker counts
  2, 1, 3.
\<close>

definition example_results :: "TranscriptionResult option list" where
  "example_results =
     [Some (sample_result ''first'' [] 2), Some (sample_result [] ''en'' 1),
      Some (sample_result ''third'' [] 3)]"

text \<open>Two chunk results, the second with a segment that has no string as start.\<close>

definition cut_results :: "TranscriptionResult option list" where
  "cut_results =
     [Some (sample_result ''first'' ''en'' 2),
      Some \<lparr>segments = Some [cut_segment], summary = None, detected_language = None,
             speakers_count = None\<rparr>]"

text \<open>A service whose generated text always parses to a result with no segments.\<close>

definition empty_reply_ai :: ai_env where
  "empty_reply_ai =
     \<lparr>replies = (\<lambda>filePath mimeType displayName attempt.
         \<lparr>upload_reply = Inr \<lparr>up_name = ''files/x'', up_uri = ''uri/x'', up_mimeType = mimeType\<rparr>,
          get_reply = (\<lambda>k. Inr ACTIVE),
          generate_reply = Inr (Some ''empty'')\<rparr>),
      json = sample_json\<rparr>"

text \<open>
  A short source (one chunk) that is transcribed at the first attempt, with a store
  that rejects the fourth request of the run: the progress write after the chunk.
\<close>

definition rejecting_env :: env where
  "rejecting_env = sample_env (JNumber 100) (\<lambda>p. False) (\<lambda>k. k = 3)"




text \<open>
  A source of 1000 seconds (two chunks, one window) with a store that rejects the third
  request of the run: the start write of the first chunk.
\<close>

definition sibling_env :: env where
  "sibling_env = sample_env (JNumber 1000) (\<lambda>p. False) (\<lambda>k. k = 2)"

section \<open>Facts about the string primitives\<close>

lemma digit_char_is_digit: "d < 10 \<Longrightarrow> is_digit (digit_char d)"
  by (simp add: is_digit_def digit_char_def)

lemma digit_val_digit_char: "d < 10 \<Longrightarrow> digit_val (digit_char d) = d"
  by (simp add: digit_val_def digit_char_def)

lemma digits_of_all_digits: "list_all is_digit (digits_of n)"
proof (induction n rule: digits_of.induct)
  case (1 n)
  show ?case
  proof (cases "n < 10")
    case True
    then show ?thesis by (simp add: digits_of.simps [of n] digit_char_is_digit)
  next
    case False
    with 1 show ?thesis by (simp add: digits_of.simps [of n] digit_char_is_digit)
  qed
qed

lemma digits_of_nonempty: "digits_of n \<noteq> []"
  by (subst digits_of.simps) simp

lemma digits_val_snoc: "digits_val (s @ [c]) = digits_val s * 10 + digit_val c"
  by (simp add: digits_val_def)

lemma digits_val_digits_of: "digits_val (digits_of n) = n"
proof (induction n rule: digits_of.induct)
  case (1 n)
  show ?case
  proof (cases "n < 10")
    case True
    then show ?thesis by (simp add: digits_of.simps [of n] digits_val_def digit_val_digit_char)
  next
    case False
    with 1 show ?thesis
      by (simp add: digits_of.simps [of n] digits_val_snoc digit_val_digit_char)
  qed
qed

lemma digits_val_zeros: "digits_val (replicate k (CHR ''0'') @ s) = digits_val s"
proof -
  have "foldl (\<lambda>acc c. acc * 10 + digit_val c) 0 (replicate k (CHR ''0'')) = 0"
    by (induction k) (simp_all add: digit_val_def)
  then show ?thesis by (simp add: digits_val_def)
qed

lemma digit_not_ws: "is_digit c \<Longrightarrow> \<not> is_ws c"
  by (auto simp: is_digit_def is_ws_def)

lemma digit_not_colon: "is_digit c \<Longrightarrow> c \<noteq> CHR '':''"
  by (auto simp: is_digit_def)

lemma colon_not_ws: "\<not> is_ws (CHR '':'')"
  by (simp add: is_ws_def)

lemma dropWhile_hd_keep: "xs \<noteq> [] \<Longrightarrow> \<not> P (hd xs) \<Longrightarrow> dropWhile P xs = xs"
  by (cases xs) simp_all

lemma trim_no_ws_ends:
  assumes "s \<noteq> []" "\<not> is_ws (hd s)" "\<not> is_ws (last s)"
  shows "trim s = s"
proof -
  have 1: "dropWhile is_ws s = s" using assms by (simp add: dropWhile_hd_keep)
  have "rev s \<noteq> []" using assms by simp
  moreover have "hd (rev s) = last s" using assms by (simp add: hd_rev)
  ultimately have 2: "dropWhile is_ws (rev s) = rev s" using assms(3)
    by (simp add: dropWhile_hd_keep)
  show ?thesis by (simp add: trim_def 1 2)
qed

lemma trim_digits: "list_all is_digit s \<Longrightarrow> trim s = s"
proof (cases "s = []")
  case True
  then show ?thesis by (simp add: trim_def)
next
  case False
  assume a: "list_all is_digit s"
  from False a have "is_digit (hd s)" "is_digit (last s)"
    by (simp_all add: list_all_iff)
  then show ?thesis using False trim_no_ws_ends digit_not_ws by blast
qed

lemma Number_digits:
  assumes "list_all is_digit s"
  shows "Number s = Num (int (digits_val s))"
proof (cases "s = []")
  case True
  then show ?thesis by (simp add: Number_def trim_def digits_val_def)
next
  case False
  then show ?thesis using assms by (simp add: Number_def trim_digits)
qed

lemma split_colon_nonempty: "split_colon s \<noteq> []"
  by (induction s) (auto split: list.splits)

lemma split_colon_no_colon: "CHR '':'' \<notin> set a \<Longrightarrow> split_colon a = [a]"
  by (induction a) auto

lemma split_colon_append:
  "CHR '':'' \<notin> set a \<Longrightarrow> split_colon (a @ CHR '':'' # r) = a # split_colon r"
  by (induction a) auto

lemma is_digit_pad: "list_all is_digit s \<Longrightarrow> list_all is_digit (padStart2 s)"
  by (auto simp: padStart2_def list_all_iff is_digit_def)

lemma digits_no_colon: "list_all is_digit s \<Longrightarrow> CHR '':'' \<notin> set s"
  using digit_not_colon by (auto simp: list_all_iff)


lemma join_split_colon: "join_colon (split_colon s) = s"
proof (induction s)
  case Nil
  show ?case by simp
next
  case (Cons c cs)
  obtain p ps where sp: "split_colon cs = p # ps"
    using split_colon_nonempty [of cs] by (cases "split_colon cs") auto
  show ?case
  proof (cases "c = CHR '':''")
    case True
    with Cons sp show ?thesis by simp
  next
    case False
    with Cons sp show ?thesis by (cases ps) auto
  qed
qed

lemma rtrim_all_ws: "(rev (dropWhile P (rev s)) = []) = (\<forall>x\<in>set s. P x)"
  by (simp add: dropWhile_eq_Nil_conv)

lemma rtrim_Cons:
  "rev (dropWhile P (rev (c # cs))) =
     (if rev (dropWhile P (rev cs)) = [] \<and> P c then [] else c # rev (dropWhile P (rev cs)))"
  by (auto simp: dropWhile_append dropWhile_eq_Nil_conv)

lemma rtrim_idem: "rev (dropWhile P (rev (rev (dropWhile P (rev s))))) = rev (dropWhile P (rev s))"
  by simp

lemma trim_rtrim: "trim (rev (dropWhile is_ws (rev b))) = trim b"
proof (induction b)
  case Nil
  show ?case by (simp add: trim_def)
next
  case (Cons c cs)
  let ?r = "rev (dropWhile is_ws (rev cs))"
  show ?case
  proof (cases "is_ws c")
    case False
    have "trim (rev (dropWhile is_ws (rev (c # cs)))) = trim (c # ?r)"
      using False by (simp only: rtrim_Cons) simp
    also have "\<dots> = rev (dropWhile is_ws (rev (c # ?r)))"
      using False by (simp add: trim_def)
    also have "\<dots> = c # rev (dropWhile is_ws (rev ?r))"
      using False by (simp only: rtrim_Cons) simp
    also have "\<dots> = c # ?r" by simp
    also have "\<dots> = rev (dropWhile is_ws (rev (c # cs)))"
      using False by (simp only: rtrim_Cons) simp
    also have "\<dots> = trim (c # cs)" using False by (simp add: trim_def)
    finally show ?thesis .
  next
    case True
    show ?thesis
    proof (cases "?r = []")
      case True
      then have all: "\<forall>x\<in>set cs. is_ws x" by (simp add: dropWhile_eq_Nil_conv)
      have f1: "rev (dropWhile is_ws (rev (c # cs))) = []"
        using True \<open>is_ws c\<close> by (simp only: rtrim_Cons) simp
      have f2: "dropWhile is_ws (c # cs) = []"
        using all \<open>is_ws c\<close> by (simp add: dropWhile_eq_Nil_conv)
      have "trim (rev (dropWhile is_ws (rev (c # cs)))) = trim []" by (simp only: f1)
      also have "\<dots> = trim (c # cs)" unfolding trim_def by (simp only: f2) simp
      finally show ?thesis .
    next
      case False
      have "trim (rev (dropWhile is_ws (rev (c # cs)))) = trim (c # ?r)"
        using False by (simp only: rtrim_Cons) simp
      also have "\<dots> = trim ?r" using True by (simp add: trim_def)
      also have "\<dots> = trim cs" by (rule Cons.IH)
      also have "\<dots> = trim (c # cs)" using True by (simp add: trim_def)
      finally show ?thesis .
    qed
  qed
qed

lemma trim_ltrim: "trim (dropWhile is_ws a) = trim a"
  by (simp add: trim_def)

lemma Number_ltrim: "Number (dropWhile is_ws a) = Number a"
  by (simp add: Number_def trim_ltrim)

lemma Number_rtrim: "Number (rev (dropWhile is_ws (rev b))) = Number b"
  by (simp add: Number_def trim_rtrim)

lemma Number_trim: "Number (trim a) = Number a"
  by (simp add: trim_def Number_rtrim Number_ltrim)

lemma dropWhile_sep:
  "\<not> P c \<Longrightarrow> dropWhile P (a @ c # b) = dropWhile P a @ c # b"
  by (induction a) auto

lemma trim_sep:
  assumes "\<not> is_ws c"
  shows "trim (a @ c # b) = dropWhile is_ws a @ c # rev (dropWhile is_ws (rev b))"
proof -
  have "rev (dropWhile is_ws a @ c # b) = rev b @ c # rev (dropWhile is_ws a)" by simp
  then show ?thesis
    using assms by (simp add: trim_def dropWhile_sep)
qed

section \<open>Rendering and re-reading timecodes\<close>

lemma two_digits_digits: "list_all is_digit (two_digits n)"
  by (simp add: two_digits_def is_digit_pad digits_of_all_digits)

lemma two_digits_nonempty: "two_digits n \<noteq> []"
  by (simp add: two_digits_def padStart2_def digits_of_nonempty)

lemma two_digits_val: "0 \<le> n \<Longrightarrow> int (digits_val (two_digits n)) = n"
  by (simp add: two_digits_def padStart2_def digits_val_zeros digits_val_digits_of)

lemma two_digits_length_ge: "2 \<le> length (two_digits n)"
  by (simp add: two_digits_def padStart2_def)

lemma digits_of_length_small:
  assumes "n < 100"
  shows "length (digits_of n) \<le> 2"
proof (cases "n < 10")
  case True
  then show ?thesis by (simp add: digits_of.simps [of n])
next
  case False
  have "n div 10 < 10" using assms by simp
  then have "digits_of (n div 10) = [digit_char (n div 10)]"
    by (simp add: digits_of.simps [of "n div 10"])
  then show ?thesis using False by (simp add: digits_of.simps [of n])
qed

lemma two_digits_length_eq: "0 \<le> n \<Longrightarrow> n < 100 \<Longrightarrow> length (two_digits n) = 2"
  using digits_of_length_small [of "nat n"] by (simp add: two_digits_def padStart2_def)

lemma split_render_hms:
  "split_colon (render_hms T) =
     [two_digits (T div 3600), two_digits (T mod 3600 div 60), two_digits (T mod 60)]"
  by (simp add: render_hms_def split_colon_append split_colon_no_colon
      digits_no_colon two_digits_digits)

lemma is_timecode_render: "is_timecode (render_hms T)"
  by (simp add: is_timecode_def split_render_hms two_digits_digits two_digits_nonempty)

lemma hms_recompose: "(T::int) div 3600 * 3600 + T mod 3600 div 60 * 60 + T mod 60 = T"
proof -
  have "T mod 3600 mod 60 = T mod 60" by (simp add: mod_mod_cancel)
  then have "T mod 3600 div 60 * 60 + T mod 60 = T mod 3600"
    by (metis div_mult_mod_eq)
  then show ?thesis by (metis add.assoc div_mult_mod_eq)
qed

lemma timecode_seconds_render: "0 \<le> T \<Longrightarrow> timecode_seconds (render_hms T) = T"
  using hms_recompose [of T]
  by (simp add: timecode_seconds_def split_render_hms two_digits_val pos_imp_zdiv_nonneg_iff)

lemma trunc_rem_nonneg: "0 \<le> a \<Longrightarrow> 0 < b \<Longrightarrow> trunc_rem a b = a mod b"
  by (cases "a = 0") (simp_all add: trunc_rem_def)

lemma pad_String_nonneg: "0 \<le> n \<Longrightarrow> padStart2 (String_num (Num n)) = two_digits n"
  by (simp add: two_digits_def)

lemma render_total:
  assumes "0 \<le> T"
  shows "join_colon (map (\<lambda>n. padStart2 (String_num n))
           [jfloor_div (Num T) 3600, jfloor_div (jrem (Num T) 3600) 60,
            jfloor_div (jrem (Num T) 60) 1]) = render_hms T"
proof -
  have d1: "0 \<le> T div 3600" using assms by (simp add: pos_imp_zdiv_nonneg_iff)
  have d2: "0 \<le> T mod 3600 div 60" by (simp add: pos_imp_zdiv_nonneg_iff)
  have d3: "0 \<le> T mod 60" by simp
  have r1: "trunc_rem T 3600 = T mod 3600" and r2: "trunc_rem T 60 = T mod 60"
    using assms by (simp_all add: trunc_rem_nonneg)
  show ?thesis
    by (simp add: r1 r2 pad_String_nonneg [OF d1] pad_String_nonneg [OF d2]
        pad_String_nonneg [OF d3] render_hms_def del: String_num.simps)
qed

lemma addOffset_fields:
  assumes "split_colon (trim t) = [h, m, s]"
    and "list_all is_digit h" "list_all is_digit m" "list_all is_digit s"
    and "0 \<le> off"
  shows "addOffsetToTimestamp t off =
           render_hms (int (digits_val h) * 3600 + int (digits_val m) * 60 + int (digits_val s) + off)"
proof -
  let ?T = "int (digits_val h) * 3600 + int (digits_val m) * 60 + int (digits_val s) + off"
  have T: "0 \<le> ?T" using assms(5) by simp
  have "addOffsetToTimestamp t off =
          join_colon (map (\<lambda>n. padStart2 (String_num n))
           [jfloor_div (Num ?T) 3600, jfloor_div (jrem (Num ?T) 3600) 60,
            jfloor_div (jrem (Num ?T) 60) 1])"
    by (simp add: addOffsetToTimestamp_def assms(1) Number_digits assms(2,3,4) Let_def
        del: String_num.simps jfloor_div.simps jrem.simps)
  then show ?thesis by (simp only: render_total [OF T])
qed

lemma timecode_shape:
  assumes "is_timecode t"
  obtains h m s where "split_colon t = [h, m, s]" "t = h @ CHR '':'' # m @ CHR '':'' # s"
    "h \<noteq> []" "list_all is_digit h" "m \<noteq> []" "list_all is_digit m" "s \<noteq> []" "list_all is_digit s"
proof -
  from assms obtain h m s where sp: "split_colon t = [h, m, s]"
    and f: "h \<noteq> []" "list_all is_digit h" "m \<noteq> []" "list_all is_digit m" "s \<noteq> []" "list_all is_digit s"
    by (auto simp: is_timecode_def split: list.splits)
  have "t = join_colon (split_colon t)" by (simp add: join_split_colon)
  then have "t = h @ CHR '':'' # m @ CHR '':'' # s" by (simp add: sp)
  with sp f that show thesis by blast
qed

lemma trim_timecode: "is_timecode t \<Longrightarrow> trim t = t"
proof -
  assume "is_timecode t"
  then obtain h m s where t: "t = h @ CHR '':'' # m @ CHR '':'' # s"
    and f: "h \<noteq> []" "list_all is_digit h" "s \<noteq> []" "list_all is_digit s"
    by (rule timecode_shape)
  have "is_digit (hd t)" using t f by (cases h) simp_all
  moreover have "is_digit (last t)" using t f by (simp add: list_all_iff)
  moreover have "t \<noteq> []" using t by simp
  ultimately show ?thesis using trim_no_ws_ends digit_not_ws by blast
qed

lemma addOffset_timecode:
  assumes "is_timecode t" "0 \<le> off"
  shows "addOffsetToTimestamp t off = render_hms (timecode_seconds t + off)"
proof -
  from assms(1) obtain h m s where sp: "split_colon t = [h, m, s]"
    and f: "list_all is_digit h" "list_all is_digit m" "list_all is_digit s"
    by (rule timecode_shape)
  have "split_colon (trim t) = [h, m, s]" using sp assms(1) by (simp add: trim_timecode)
  from addOffset_fields [OF this f assms(2)] show ?thesis
    by (simp add: timecode_seconds_def sp)
qed

lemma timecode_seconds_nonneg: "0 \<le> timecode_seconds t"
  by (simp add: timecode_seconds_def split: list.splits)

section \<open>Timecodes with fewer than three fields\<close>

lemma ltrim_no_colon: "CHR '':'' \<notin> set a \<Longrightarrow> CHR '':'' \<notin> set (dropWhile is_ws a)"
  by (meson set_dropWhileD)

lemma rtrim_no_colon: "CHR '':'' \<notin> set b \<Longrightarrow> CHR '':'' \<notin> set (rev (dropWhile is_ws (rev b)))"
  using set_dropWhileD by fastforce

lemma trim_no_colon: "CHR '':'' \<notin> set a \<Longrightarrow> CHR '':'' \<notin> set (trim a)"
  by (simp add: trim_def ltrim_no_colon rtrim_no_colon del: set_rev)

lemma Number_zero_literal: "Number ''0'' = Num 0"
  by (simp add: Number_def trim_def is_ws_def is_digit_def digits_val_def digit_val_def)

lemma parts_one:
  assumes "CHR '':'' \<notin> set a"
  shows "map Number (split_colon (trim a)) = [Number a]"
  using assms by (simp add: split_colon_no_colon trim_no_colon Number_trim)

lemma parts_two:
  assumes "CHR '':'' \<notin> set a" "CHR '':'' \<notin> set b"
  shows "map Number (split_colon (trim (a @ '':'' @ b))) = [Number a, Number b]"
proof -
  have "trim (a @ '':'' @ b) = dropWhile is_ws a @ CHR '':'' # rev (dropWhile is_ws (rev b))"
    using trim_sep [OF colon_not_ws] by simp
  then show ?thesis
    using assms
    by (simp add: split_colon_append split_colon_no_colon ltrim_no_colon rtrim_no_colon
        Number_ltrim Number_rtrim del: set_rev)
qed

lemma parts_three:
  assumes "CHR '':'' \<notin> set a" "CHR '':'' \<notin> set b" "CHR '':'' \<notin> set c"
  shows "map Number (split_colon (trim (a @ '':'' @ b @ '':'' @ c))) = [Number a, Number b, Number c]"
proof -
  have "trim (a @ '':'' @ b @ '':'' @ c) =
          dropWhile is_ws a @ CHR '':'' # rev (dropWhile is_ws (rev (b @ '':'' @ c)))"
    using trim_sep [OF colon_not_ws] by simp
  also have "rev (dropWhile is_ws (rev (b @ '':'' @ c))) = b @ CHR '':'' # rev (dropWhile is_ws (rev c))"
    by (simp add: dropWhile_sep colon_not_ws)
  finally show ?thesis
    using assms
    by (simp add: split_colon_append split_colon_no_colon ltrim_no_colon rtrim_no_colon
        Number_ltrim Number_rtrim del: set_rev)
qed

lemma addOffset_parts:
  "addOffsetToTimestamp t off =
     (case destructure3 (map Number (split_colon (trim t))) of (h, m, s) \<Rightarrow>
        (let totalSeconds = jadd (jadd (jadd (jmul h (Num 3600)) (jmul m (Num 60))) s) (Num off)
         in join_colon (map (\<lambda>n. padStart2 (String_num n))
              [jfloor_div totalSeconds 3600, jfloor_div (jrem totalSeconds 3600) 60,
               jfloor_div (jrem totalSeconds 60) 1])))"
  by (simp add: addOffsetToTimestamp_def Let_def)

lemma zero_no_colon: "CHR '':'' \<notin> set ''0''"
  by simp

lemma two_fields_as_three:
  assumes "CHR '':'' \<notin> set a" "CHR '':'' \<notin> set b"
  shows "addOffsetToTimestamp (a @ '':'' @ b) off = addOffsetToTimestamp (a @ '':'' @ b @ '':'' @ ''0'') off"
  by (simp only: addOffset_parts parts_two [OF assms] parts_three [OF assms zero_no_colon]
      Number_zero_literal) simp

lemma one_field_as_three:
  assumes "CHR '':'' \<notin> set a"
  shows "addOffsetToTimestamp a off = addOffsetToTimestamp (a @ '':'' @ ''0'' @ '':'' @ ''0'') off"
  by (simp only: addOffset_parts parts_one [OF assms]
      parts_three [OF assms zero_no_colon zero_no_colon] Number_zero_literal) simp

lemma two_fields_seconds:
  assumes "list_all is_digit a" "list_all is_digit b" "0 \<le> off"
  shows "addOffsetToTimestamp (a @ '':'' @ b) off =
           render_hms (int (digits_val a) * 3600 + int (digits_val b) * 60 + off)"
proof -
  let ?T = "int (digits_val a) * 3600 + int (digits_val b) * 60 + off"
  have T: "0 \<le> ?T" using assms(3) by simp
  have nc: "CHR '':'' \<notin> set a" "CHR '':'' \<notin> set b"
    using assms by (simp_all add: digits_no_colon)
  have "addOffsetToTimestamp (a @ '':'' @ b) off =
          join_colon (map (\<lambda>n. padStart2 (String_num n))
           [jfloor_div (Num ?T) 3600, jfloor_div (jrem (Num ?T) 3600) 60,
            jfloor_div (jrem (Num ?T) 60) 1])"
    by (simp only: addOffset_parts parts_two [OF nc] Number_digits [OF assms(1)]
        Number_digits [OF assms(2)]) (simp add: Let_def del: String_num.simps jfloor_div.simps jrem.simps)
  then show ?thesis by (simp only: render_total [OF T])
qed

lemma one_field_seconds:
  assumes "list_all is_digit a" "0 \<le> off"
  shows "addOffsetToTimestamp a off = render_hms (int (digits_val a) * 3600 + off)"
proof -
  let ?T = "int (digits_val a) * 3600 + off"
  have T: "0 \<le> ?T" using assms(2) by simp
  have nc: "CHR '':'' \<notin> set a"
    using assms by (simp_all add: digits_no_colon)
  have "addOffsetToTimestamp a off =
          join_colon (map (\<lambda>n. padStart2 (String_num n))
           [jfloor_div (Num ?T) 3600, jfloor_div (jrem (Num ?T) 3600) 60,
            jfloor_div (jrem (Num ?T) 60) 1])"
    by (simp only: addOffset_parts parts_one [OF nc] Number_digits [OF assms(1)])
       (simp add: Let_def del: String_num.simps jfloor_div.simps jrem.simps)
  then show ?thesis by (simp only: render_total [OF T])
qed

section \<open>Facts about probing and splitting\<close>

lemma split_loop_ok:
  assumes "\<forall>job. ffmpeg_run env job = None"
  shows "split_loop env p d is jobs paths =
           (jobs @ map (chunk_job env p d) is, Inr (paths @ map (chunk_path env p) is))"
  using assms
  by (induction "is" arbitrary: jobs paths) (simp_all add: Let_def chunk_job_def)

lemma getAudioDuration_Some:
  "getAudioDuration env p = Inr (Some D) \<Longrightarrow>
     ffmpeg_present env \<and> 0 < D \<and> (\<exists>md. ffprobe env p = ProbeData md \<and> probed_duration md = JNumber D)"
  by (auto simp: getAudioDuration_def split: if_splits probe_reply.splits js_value.splits)

lemma getAudioDuration_total: "\<exists>r. getAudioDuration env p = Inr r"
  by (simp add: getAudioDuration_def split: probe_reply.splits js_value.splits)

lemma split_long:
  assumes "getAudioDuration env p = Inr (Some D)" "600 < D" "\<forall>job. ffmpeg_run env job = None"
  shows "splitAudioIntoChunks env p =
           (map (chunk_job env p D) [0..<nat \<lceil>D / 600\<rceil>],
            Inr (map (chunk_path env p) [0..<nat \<lceil>D / 600\<rceil>]))"
  using assms getAudioDuration_Some [OF assms(1)]
  by (simp add: splitAudioIntoChunks_def CHUNK_DURATION_SEC_def split_loop_ok Let_def)

lemma split_short:
  assumes "getAudioDuration env p = Inr None \<or> (\<exists>D. getAudioDuration env p = Inr (Some D) \<and> D \<le> 600)"
  shows "splitAudioIntoChunks env p = ([], Inr [p])"
  using assms by (auto simp: splitAudioIntoChunks_def CHUNK_DURATION_SEC_def)

lemma sum_list_const:
  "(\<And>x. x \<in> set xs \<Longrightarrow> f x = (c::rat)) \<Longrightarrow> sum_list (map f xs) = of_nat (length xs) * c"
  by (induction xs) (simp_all add: algebra_simps)


lemma ceil_bounds:
  fixes D :: rat
  assumes "600 < D"
  defines "n \<equiv> nat \<lceil>D / 600\<rceil>"
  shows "2 \<le> n" and "of_nat (n - 1) * 600 < D" and "D \<le> of_nat n * 600"
proof -
  let ?c = "\<lceil>D / 600\<rceil>"
  have "1 < D / 600" using assms(1) by simp
  then have c2: "2 \<le> ?c" by linarith
  then show n2: "2 \<le> n" unfolding n_def by linarith
  have "of_int ?c - 1 < D / 600" by linarith
  then have lo: "(of_int ?c - 1) * 600 < D" by (simp add: pos_less_divide_eq)
  have "D / 600 * 600 \<le> of_int ?c * 600" by (rule mult_right_mono) simp_all
  then have hi: "D \<le> of_int ?c * 600" by simp
  have nc: "(of_nat n :: rat) = of_int ?c" using c2 by (simp add: n_def)
  have "(of_nat (n - 1) :: rat) = of_nat n - 1" using n2 by (simp add: of_nat_diff)
  then show "of_nat (n - 1) * 600 < D" using lo nc by simp
  show "D \<le> of_nat n * 600" using hi nc by simp
qed

lemma chunk_len_full:
  fixes D :: rat
  assumes "600 < D" "i < nat \<lceil>D / 600\<rceil> - 1"
  shows "chunk_len D i = 600"
proof -
  let ?n = "nat \<lceil>D / 600\<rceil>"
  have "Suc i \<le> ?n - 1" using assms(2) by simp
  then have "(of_nat (Suc i) :: rat) \<le> of_nat (?n - 1)" by (simp only: of_nat_le_iff)
  then have "(of_nat i + 1) * 600 \<le> (of_nat (?n - 1) :: rat) * 600" by simp
  also have "\<dots> < D" using ceil_bounds(2) [OF assms(1)] .
  finally show ?thesis by (simp add: chunk_len_def algebra_simps)
qed

lemma chunk_len_last:
  fixes D :: rat
  assumes "600 < D"
  shows "chunk_len D (nat \<lceil>D / 600\<rceil> - 1) = D - of_nat (nat \<lceil>D / 600\<rceil> - 1) * 600"
proof -
  let ?n = "nat \<lceil>D / 600\<rceil>"
  have n2: "2 \<le> ?n" using ceil_bounds(1) [OF assms] .
  have "(of_nat (?n - 1) :: rat) = of_nat ?n - 1" using n2 by (simp add: of_nat_diff)
  moreover have "D \<le> of_nat ?n * 600" using ceil_bounds(3) [OF assms] .
  ultimately have "D - of_nat (?n - 1) * 600 \<le> 600" by (simp add: algebra_simps)
  then show ?thesis by (simp add: chunk_len_def)
qed

lemma chunk_len_sum:
  fixes D :: rat
  assumes "600 < D"
  shows "sum_list (map (chunk_len D) [0..<nat \<lceil>D / 600\<rceil>]) = D"
proof -
  let ?n = "nat \<lceil>D / 600\<rceil>"
  have n2: "2 \<le> ?n" using ceil_bounds(1) [OF assms] .
  then have n: "?n = Suc (?n - 1)" by simp
  have "sum_list (map (chunk_len D) [0..<?n - 1]) = of_nat (length [0..<?n - 1]) * 600"
    by (rule sum_list_const) (simp add: chunk_len_full [OF assms])
  then have a: "sum_list (map (chunk_len D) [0..<?n - 1]) = of_nat (?n - 1) * 600" by simp
  have "sum_list (map (chunk_len D) [0..<?n]) = sum_list (map (chunk_len D) [0..<Suc (?n - 1)])"
    using n by simp
  also have "\<dots> = sum_list (map (chunk_len D) [0..<?n - 1]) + chunk_len D (?n - 1)"
    by (simp only: upt_Suc_append [OF le0] map_append sum_list_append) simp
  also have "\<dots> = D" by (simp only: a chunk_len_last [OF assms])
  finally show ?thesis .
qed

lemma last_offset:
  fixes D :: rat
  assumes "600 < D"
  shows "(of_nat (nat \<lceil>D / 600\<rceil> - 1) :: rat) * 600 =
           (if of_int \<lfloor>D / 600\<rfloor> * 600 = D then D - 600 else of_int \<lfloor>D / 600\<rfloor> * 600)"
proof -
  let ?n = "nat \<lceil>D / 600\<rceil>"
  have n2: "2 \<le> ?n" using ceil_bounds(1) [OF assms] .
  have c2: "2 \<le> \<lceil>D / 600\<rceil>" using n2 by linarith
  have n1: "(of_nat (?n - 1) :: rat) = of_int \<lceil>D / 600\<rceil> - 1"
    using n2 c2 by (simp add: of_nat_diff)
  show ?thesis
  proof (cases "of_int \<lfloor>D / 600\<rfloor> * 600 = D")
    case True
    then have "D / 600 = of_int \<lfloor>D / 600\<rfloor>" by (simp add: field_simps)
    then have "\<lceil>D / 600\<rceil> = \<lfloor>D / 600\<rfloor>" by (metis ceiling_of_int)
    then show ?thesis using True n1 by (simp add: algebra_simps)
  next
    case False
    have ne: "D / 600 \<noteq> of_int \<lfloor>D / 600\<rfloor>"
    proof
      assume e: "D / 600 = of_int \<lfloor>D / 600\<rfloor>"
      have "of_int \<lfloor>D / 600\<rfloor> * 600 = D / 600 * 600" by (simp only: e [symmetric])
      also have "\<dots> = D" by simp
      finally show False using False by simp
    qed
    have "\<lceil>D / 600\<rceil> = \<lfloor>D / 600\<rfloor> + 1" by (simp only: ceiling_altdef ne if_False)
    then have "(of_int \<lceil>D / 600\<rceil> :: rat) = of_int \<lfloor>D / 600\<rfloor> + 1"
      by (simp only: of_int_add of_int_1)
    then have "(of_nat (?n - 1) :: rat) = of_int \<lfloor>D / 600\<rfloor>" using n1 by linarith
    then show ?thesis by (simp only: False if_False)
  qed
qed

lemma chunk_job_sel:
  "job_input (chunk_job env p D i) = p"
  "job_output (chunk_job env p D i) = chunk_path env p i"
  "job_start (chunk_job env p D i) = of_nat i * of_int CHUNK_DURATION_SEC"
  "job_duration (chunk_job env p D i) = chunk_len D i"
  by (simp_all add: chunk_job_def chunk_len_def CHUNK_DURATION_SEC_def Let_def)

lemma job_duration_chunk_job: "job_duration \<circ> chunk_job env p D = chunk_len D"
  by (rule ext) (simp add: chunk_job_sel)

lemma last_map_upt: "0 < n \<Longrightarrow> last (map f [0..<n]) = f (n - 1)"
  by (cases n) simp_all

lemma ceiling_five_halves: "\<lceil>(5::rat) / 2\<rceil> = 3"
  by (rule ceiling_unique) simp_all

lemma floor_five_halves: "\<lfloor>(5::rat) / 2\<rfloor> = 2"
  by (rule floor_unique) simp_all

lemma sample_media_duration:
  "getAudioDuration (sample_media (JNumber d)) p = Inr (if d > 0 then Some d else None)"
  by (simp add: getAudioDuration_def sample_media_def probed_duration_def)

section \<open>The result array after the windows\<close>

lemma updateTask_frame:
  "updateTask s tid u st = (st', r) \<Longrightarrow>
     results st' = results st \<and> completedChunks st' = completedChunks st
     \<and> background st' = background st"
  by (auto simp: updateTask_def emit_events_def split: sum.splits)

lemma announce_frame:
  "announce env tid n idxs st = (st', r) \<Longrightarrow>
     results st' = results st \<and> completedChunks st' = completedChunks st
     \<and> background st' = background st"
proof (induction idxs arbitrary: st r)
  case Nil
  then show ?case by simp
next
  case (Cons i rest)
  obtain s1 r1 where u: "updateTask (store env) tid (message_update (start_message n i)) st = (s1, r1)"
    by (cases "updateTask (store env) tid (message_update (start_message n i)) st")
  obtain s2 rs where a: "announce env tid n rest s1 = (s2, rs)"
    by (cases "announce env tid n rest s1")
  from Cons.prems u a have "s2 = st'" by simp
  with a have "announce env tid n rest s1 = (st', rs)" by simp
  from Cons.IH [OF this] updateTask_frame [OF u] show ?case by simp
qed

lemma chunk_task_frame:
  assumes "chunk_task env tid fn mt paths i st = (st', r)"
  shows "results st' = store_chunk env fn mt paths i (results st)
       \<and> completedChunks st' = completedChunks st + 1
       \<and> background st' = background st"
proof -
  obtain ev cr where c: "chunk_result env fn mt paths i = (ev, cr)"
    by (cases "chunk_result env fn mt paths i")
  let ?st1 = "st\<lparr>trace := trace st @ ev, results := (results st)[i := cr],
                 completedChunks := completedChunks st + 1\<rparr>"
  let ?u = "message_update (ProcessingPartPct (i + 1) (length paths)
              (progress_pct (completedChunks ?st1) (length paths)))"
  have u: "updateTask (store env) tid ?u ?st1 = (st', r)"
    using assms c by (simp add: chunk_task_def Let_def)
  from updateTask_frame [OF u] c show ?thesis by (simp add: store_chunk_def)
qed

lemma complete_results:
  "complete env tid fn mt paths idxs st = (st', Inr ()) \<Longrightarrow>
     results st' = fold (store_chunk env fn mt paths) idxs (results st)
     \<and> background st' = background st"
proof (induction idxs arbitrary: st)
  case Nil
  then show ?case by simp
next
  case (Cons i rest)
  obtain s1 r1 where u: "chunk_task env tid fn mt paths i st = (s1, r1)"
    by (cases "chunk_task env tid fn mt paths i st")
  show ?case
  proof (cases r1)
    case (Inl e)
    with Cons.prems u show ?thesis by simp
  next
    case (Inr x)
    with Cons.prems u have "complete env tid fn mt paths rest s1 = (st', Inr ())"
      by simp
    from Cons.IH [OF this] chunk_task_frame [OF u] show ?thesis by simp
  qed
qed

lemma processBatch_results:
  assumes "processBatch env tid fn mt paths w st = (st', Inr ())"
  shows "results st' = fold (store_chunk env fn mt paths) (completion_order env w) (results st)
       \<and> background st' = background st"
proof -
  obtain s1 answers where a: "announce env tid (length paths) w st = (s1, answers)"
    by (cases "announce env tid (length paths) w st")
  show ?thesis
  proof (cases "first_rejection answers")
    case (Some e)
    with assms a show ?thesis by (simp add: processBatch_def)
  next
    case None
    with assms a have "complete env tid fn mt paths (completion_order env w) s1 = (st', Inr ())"
      by (simp add: processBatch_def)
    from complete_results [OF this] announce_frame [OF a] show ?thesis by simp
  qed
qed

lemma store_chunk_nth:
  "j < length rs \<Longrightarrow>
     store_chunk env fn mt paths i rs ! j =
       (if j = i then snd (chunk_result env fn mt paths j) else rs ! j)"
  by (simp add: store_chunk_def nth_list_update)

lemma store_chunk_length: "length (store_chunk env fn mt paths i rs) = length rs"
  by (simp add: store_chunk_def)

lemma fold_store_length: "length (fold (store_chunk env fn mt paths) idxs rs) = length rs"
  by (induction idxs arbitrary: rs) (simp_all add: store_chunk_length)

lemma fold_store_nth:
  "j < length rs \<Longrightarrow>
     fold (store_chunk env fn mt paths) idxs rs ! j =
       (if j \<in> set idxs then snd (chunk_result env fn mt paths j) else rs ! j)"
proof (induction idxs arbitrary: rs)
  case Nil
  then show ?case by simp
next
  case (Cons i idxs)
  have "j < length (store_chunk env fn mt paths i rs)"
    using Cons.prems by (simp add: store_chunk_length)
  from Cons.IH [OF this] show ?case
    using Cons.prems by (simp add: store_chunk_nth)
qed

lemma fold_store_set_cong:
  assumes "set idxs = set idxs'"
  shows "fold (store_chunk env fn mt paths) idxs rs = fold (store_chunk env fn mt paths) idxs' rs"
  by (rule nth_equalityI) (simp_all add: fold_store_length fold_store_nth assms)

lemma window_indices_set: "set (window_indices i n) = {j. i \<le> j \<and> j < i + CONCURRENCY \<and> j < n}"
  by (auto simp: window_indices_def)

lemma window_loop_background:
  "window_loop env tid fn mt paths i st = (st', Inr ()) \<Longrightarrow> background st' = background st"
proof (induction env tid fn mt paths i st rule: window_loop.induct)
  case (1 env tid fn mt paths i st)
  show ?case
  proof (cases "i < length paths")
    case False
    with "1.prems" show ?thesis by (simp add: window_loop.simps [of _ _ _ _ _ i])
  next
    case True
    let ?w = "window_indices i (length paths)"
    obtain s1 r1 where b: "processBatch env tid fn mt paths ?w st = (s1, r1)"
      by (cases "processBatch env tid fn mt paths ?w st")
    show ?thesis
    proof (cases r1)
      case (Inl e)
      with "1.prems" True b show ?thesis by (simp add: window_loop.simps [of _ _ _ _ _ i])
    next
      case (Inr x)
      with "1.prems" True b
      have w: "window_loop env tid fn mt paths (i + CONCURRENCY) s1 = (st', Inr ())"
        by (simp add: window_loop.simps [of _ _ _ _ _ i])
      from "1.IH" [OF True b [symmetric] Inr w] processBatch_results [of env tid fn mt paths ?w st s1] b Inr
      show ?thesis by simp
    qed
  qed
qed

lemma window_loop_results:
  shows "window_loop env tid fn mt paths i st = (st', Inr ()) \<Longrightarrow>
         length (results st) = length paths \<Longrightarrow>
         \<forall>w. mset (completion_order env w) = mset w \<Longrightarrow>
         results st' = map (\<lambda>j. if i \<le> j then snd (chunk_result env fn mt paths j) else results st ! j)
                        [0..<length paths]"
proof (induction env tid fn mt paths i st rule: window_loop.induct)
  case (1 env tid fn mt paths i st)
  show ?case
  proof (cases "i < length paths")
    case False
    with "1.prems" have st': "st' = st" by (simp add: window_loop.simps [of _ _ _ _ _ i])
    have "map (\<lambda>j. if i \<le> j then snd (chunk_result env fn mt paths j) else results st ! j)
            [0..<length paths] = map (\<lambda>j. results st ! j) [0..<length (results st)]"
      using False "1.prems"(2) by simp
    also have "\<dots> = results st" by (rule map_nth)
    finally show ?thesis by (simp only: st')
  next
    case True
    let ?w = "window_indices i (length paths)"
    obtain s1 r1 where b: "processBatch env tid fn mt paths ?w st = (s1, r1)"
      by (cases "processBatch env tid fn mt paths ?w st")
    show ?thesis
    proof (cases r1)
      case (Inl e)
      with "1.prems" True b show ?thesis by (simp add: window_loop.simps [of _ _ _ _ _ i])
    next
      case (Inr x)
      with "1.prems" True b
      have w: "window_loop env tid fn mt paths (i + CONCURRENCY) s1 = (st', Inr ())"
        by (simp add: window_loop.simps [of _ _ _ _ _ i])
      have rs1: "results s1 = fold (store_chunk env fn mt paths) (completion_order env ?w) (results st)"
        using b Inr by (simp add: processBatch_results)
      have seteq: "set (completion_order env ?w) = set ?w"
        by (rule mset_eq_setD) (simp add: "1.prems"(3))
      have len1: "length (results s1) = length paths"
        using rs1 "1.prems"(2) by (simp add: fold_store_length)
      have "results st' = map (\<lambda>j. if i + CONCURRENCY \<le> j then snd (chunk_result env fn mt paths j)
                                    else results s1 ! j) [0..<length paths]"
        using "1.IH" [OF True b [symmetric] Inr w len1 "1.prems"(3)] .
      also have "\<dots> = map (\<lambda>j. if i \<le> j then snd (chunk_result env fn mt paths j) else results st ! j)
                        [0..<length paths]"
      proof (rule map_cong [OF refl])
        fix j assume "j \<in> set [0..<length paths]"
        then have j: "j < length (results st)" using "1.prems"(2) by simp
        have "results s1 ! j = (if j \<in> set ?w then snd (chunk_result env fn mt paths j)
                                else results st ! j)"
          using j by (simp only: rs1 fold_store_nth seteq)
        moreover have "j \<in> set ?w \<longleftrightarrow> i \<le> j \<and> j < i + CONCURRENCY"
          using j "1.prems"(2) by (simp add: window_indices_set)
        ultimately
        show "(if i + CONCURRENCY \<le> j then snd (chunk_result env fn mt paths j) else results s1 ! j)
              = (if i \<le> j then snd (chunk_result env fn mt paths j) else results st ! j)"
          by (simp add: not_le)
      qed
      finally show ?thesis .
    qed
  qed
qed

section \<open>The merge loop\<close>

lemma surviving_on_Cons:
  "surviving_on rs (i # idxs) =
     (case rs ! i of
        None \<Rightarrow> []
      | Some r \<Rightarrow> if has_segments (Some r) then [(i, r)] else []) @ surviving_on rs idxs"
  by (simp add: surviving_on_def List.map_filter_simps split: option.splits)

lemma spec_segments_append: "spec_segments (a @ b) = spec_segments a @ spec_segments b"
  by (simp add: spec_segments_def)

lemma nonempty_strings_append: "nonempty_strings (a @ b) = nonempty_strings a @ nonempty_strings b"
  by (simp add: nonempty_strings_def List.map_filter_def)

lemma nonempty_strings_simps:
  "nonempty_strings [] = []"
  "nonempty_strings [None] = []"
  "nonempty_strings [Some s] = (if s = [] then [] else [s])"
  by (simp_all add: nonempty_strings_def List.map_filter_def)

lemma map_filter_append: "List.map_filter f (a @ b) = List.map_filter f a @ List.map_filter f b"
  by (simp add: List.map_filter_def)

lemma last_Cons_append: "last (x # a @ b) = last (last (x # a) # b)"
  by (cases b) (simp_all)

lemma merged_on_Nil: "merged_on rs [] acc = acc"
  by (simp add: merged_on_def surviving_on_def List.map_filter_simps spec_segments_def
      nonempty_strings_def)

lemma surviving_on_split:
  "surviving_on rs (i # idxs) = surviving_on rs [i] @ surviving_on rs idxs"
  by (simp add: surviving_on_def List.map_filter_simps split: option.splits)

lemma merged_on_Cons: "merged_on rs (i # idxs) acc = merged_on rs idxs (merged_on rs [i] acc)"
  unfolding merged_on_def surviving_on_split [of rs i idxs]
  by (simp add: spec_segments_append nonempty_strings_append map_filter_append last_Cons_append
      del: append.simps last.simps)

lemma adjust_segment_strings:
  "is_string (seg_start seg) \<Longrightarrow> is_string (seg_end seg) \<Longrightarrow>
     adjust_segment off seg = Inr (shift_segment off seg)"
  by (cases "seg_start seg"; cases "seg_end seg")
     (simp_all add: adjust_segment_def offset_field_def shift_segment_def)

lemma adjust_segment_fails:
  "\<not> (is_string (seg_start seg) \<and> is_string (seg_end seg)) \<Longrightarrow>
     adjust_segment off seg = Inl TrimTypeError"
  by (cases "seg_start seg"; cases "seg_end seg")
     (simp_all add: adjust_segment_def offset_field_def)

lemma adjust_all_cases:
  "adjust_all off segs =
     (if list_all (\<lambda>seg. is_string (seg_start seg) \<and> is_string (seg_end seg)) segs
      then Inr (map (shift_segment off) segs) else Inl TrimTypeError)"
proof (induction segs)
  case Nil
  show ?case by simp
next
  case (Cons seg segs)
  show ?case
  proof (cases "is_string (seg_start seg) \<and> is_string (seg_end seg)")
    case True
    then show ?thesis using Cons by (simp add: adjust_segment_strings)
  next
    case False
    then have "adjust_segment off seg = Inl TrimTypeError" by (rule adjust_segment_fails)
    with False show ?thesis by auto
  qed
qed

lemma merge_step_cases:
  "merge_step i (rs ! i) acc =
     (if strings_only (rs ! i) then Inr (merged_on rs [i] acc) else Inl TrimTypeError)"
proof (cases "rs ! i")
  case None
  then show ?thesis
    by (simp add: merged_on_def surviving_on_Cons merge_step_def strings_only_def chunk_segments_def
        surviving_on_def List.map_filter_simps spec_segments_def nonempty_strings_def)
next
  case (Some r)
  show ?thesis
  proof (cases "has_segments (Some r)")
    case False
    then show ?thesis using Some
      by (auto simp: merged_on_def surviving_on_Cons merge_step_def has_segments_def
          strings_only_def chunk_segments_def surviving_on_def List.map_filter_simps
          spec_segments_def nonempty_strings_def split: option.splits)
  next
    case True
    then obtain segs where segs: "segments r = Some segs" "segs \<noteq> []"
      by (auto simp: has_segments_def split: option.splits)
    have sv: "surviving_on rs [i] = [(i, r)]"
      using Some True by (simp add: surviving_on_Cons surviving_on_def List.map_filter_simps)
    have so: "strings_only (rs ! i) =
                list_all (\<lambda>seg. is_string (seg_start seg) \<and> is_string (seg_end seg)) segs"
      using Some segs by (simp add: strings_only_def chunk_segments_def)
    show ?thesis
    proof (cases "strings_only (rs ! i)")
      case False
      then show ?thesis using Some segs so
        by (simp add: merge_step_def adjust_all_cases)
    next
      case ok: True
      have "merge_step i (rs ! i) acc =
         Inr \<lparr>allSegments = allSegments acc @ spec_segments [(i, r)],
              summaries = summaries acc @ nonempty_strings [summary r],
              detectedLanguage = last (detectedLanguage acc # nonempty_strings [detected_language r]),
              speakersCount = fold max (filter (\<lambda>c. c \<noteq> 0) (List.map_filter (\<lambda>x. x) [speakers_count r]))
                                (speakersCount acc)\<rparr>"
        using Some segs ok so
        by (simp add: merge_step_def adjust_all_cases spec_segments_def shifted_segments_def
            chunk_segments_def nonempty_strings_simps List.map_filter_simps max.commute
            split: option.splits)
      also have "\<dots> = Inr (merged_on rs [i] acc)"
        by (simp add: merged_on_def sv List.map_filter_simps split: option.splits)
      finally show ?thesis using ok by simp
    qed
  qed
qed

lemma merge_loop_cases:
  "merge_loop rs idxs acc =
     (if list_all (\<lambda>i. strings_only (rs ! i)) idxs then Inr (merged_on rs idxs acc)
      else Inl TrimTypeError)"
proof (induction idxs arbitrary: acc)
  case Nil
  show ?case by (simp add: merged_on_Nil)
next
  case (Cons i idxs)
  show ?case
    by (simp add: merge_step_cases Cons merged_on_Cons [of rs i idxs])
qed

lemma list_all_nth_upt: "list_all (\<lambda>i. P (rs ! i)) [0..<length rs] = list_all P rs"
  by (auto simp: list_all_iff all_set_conv_all_nth)

lemma merge_results_cases:
  "merge_results rs = (if list_all strings_only rs then Inr (merged_acc rs) else Inl TrimTypeError)"
  by (simp add: merge_results_def merge_loop_cases list_all_nth_upt merged_acc_def)

lemma fold_max_Max: "fold max xs (a::int) = Max (insert a (set xs))"
  using Max.set_eq_fold [of a xs] by simp

lemma speakers_floor:
  fixes cs :: "int list"
  defines "M \<equiv> fold max (filter (\<lambda>c. c \<noteq> 0) cs) 0"
  shows "(if M = 0 then 1 else M) = Max (insert 1 (set cs))"
proof -
  have "insert 0 (set (filter (\<lambda>c. c \<noteq> 0) cs)) = insert 0 (set cs)" by auto
  then have M: "M = Max (insert 0 (set cs))" by (simp add: M_def fold_max_Max)
  show ?thesis
  proof (cases "set cs = {}")
    case True
    then show ?thesis by (simp add: M)
  next
    case False
    then have M': "M = max 0 (Max (set cs))" by (simp add: M)
    have "Max (insert 1 (set cs)) = max 1 (Max (set cs))" using False by simp
    then show ?thesis unfolding M' by (simp add: max_def)
  qed
qed

lemma nonempty_strings_nonempty: "l \<in> set (nonempty_strings xs) \<Longrightarrow> l \<noteq> []"
  by (simp add: nonempty_strings_def)

lemma last_language:
  assumes "\<And>l. l \<in> set ls \<Longrightarrow> l \<noteq> []"
  shows "(if last ([] # ls) = [] then None else Some (last ([] # ls))) =
           (case ls of [] \<Rightarrow> None | l # ls' \<Rightarrow> Some (last (l # ls')))"
proof (cases ls)
  case Nil
  then show ?thesis by simp
next
  case (Cons l ls')
  then have "last ls \<in> set ls" by simp
  then have "last ls \<noteq> []" by (rule assms)
  then show ?thesis using Cons by simp
qed

lemma merge_results_fields:
  "allSegments (merged_acc rs) = spec_segments (surviving rs)"
  "summaries (merged_acc rs) = nonempty_strings (map (\<lambda>ir. summary (snd ir)) (surviving rs))"
  "detectedLanguage (merged_acc rs) =
     last ([] # nonempty_strings (map (\<lambda>ir. detected_language (snd ir)) (surviving rs)))"
  "speakersCount (merged_acc rs) =
     fold max (filter (\<lambda>c. c \<noteq> 0) (List.map_filter (\<lambda>ir. speakers_count (snd ir)) (surviving rs))) 0"
  by (simp_all add: merged_acc_def merged_on_def surviving_def)

lemma final_result_spec: "final_result (merged_acc rs) = spec_merge rs"
proof -
  have l: "(if detectedLanguage (merged_acc rs) = [] then None
            else Some (detectedLanguage (merged_acc rs))) = spec_language (surviving rs)"
    unfolding merge_results_fields spec_language_def
    by (rule last_language) (rule nonempty_strings_nonempty)
  have c: "(if speakersCount (merged_acc rs) = 0 then 1 else speakersCount (merged_acc rs))
             = spec_speakers (surviving rs)"
    unfolding merge_results_fields spec_speakers_def by (rule speakers_floor)
  show ?thesis
    unfolding final_result_def spec_merge_def l c
    by (simp add: merge_results_fields spec_summary_def)
qed

section \<open>Runs in which the store accepts every write\<close>

lemma updateTask_accept:
  "store_accepts env \<Longrightarrow>
     updateTask (store env) tid u st = (emit_events [StoreWrite tid u] st, Inr ())"
  by (simp add: updateTask_def store_accepts_def)

lemma announce_accept:
  "store_accepts env \<Longrightarrow>
     \<exists>st'. announce env tid n idxs st = (st', map (\<lambda>i. (i, Inr ())) idxs)"
proof (induction idxs arbitrary: st)
  case Nil
  show ?case by simp
next
  case (Cons i rest)
  let ?s1 = "emit_events [StoreWrite tid (message_update (start_message n i))] st"
  obtain s2 where "announce env tid n rest ?s1 = (s2, map (\<lambda>i. (i, Inr ())) rest)"
    using Cons.IH [OF Cons.prems] by blast
  then show ?case by (simp add: updateTask_accept [OF Cons.prems])
qed

lemma first_rejection_accepted: "first_rejection (map (\<lambda>i. (i, Inr ())) idxs) = None"
  by (induction idxs) simp_all

lemma chunk_task_accept:
  "store_accepts env \<Longrightarrow> \<exists>st'. chunk_task env tid fn mt paths i st = (st', Inr ())"
  by (cases "chunk_result env fn mt paths i")
     (simp add: chunk_task_def Let_def updateTask_accept)

lemma complete_accept:
  "store_accepts env \<Longrightarrow> \<exists>st'. complete env tid fn mt paths idxs st = (st', Inr ())"
proof (induction idxs arbitrary: st)
  case Nil
  show ?case by simp
next
  case (Cons i rest)
  obtain s1 where c: "chunk_task env tid fn mt paths i st = (s1, Inr ())"
    using chunk_task_accept [OF Cons.prems] by blast
  show ?case
    using Cons.IH [OF Cons.prems] by (simp add: c)
qed

lemma processBatch_accept:
  assumes "store_accepts env"
  shows "\<exists>st'. processBatch env tid fn mt paths w st = (st', Inr ())"
proof -
  obtain s1 where a: "announce env tid (length paths) w st = (s1, map (\<lambda>i. (i, Inr ())) w)"
    using announce_accept [OF assms] by blast
  obtain s2 where c: "complete env tid fn mt paths (completion_order env w) s1 = (s2, Inr ())"
    using complete_accept [OF assms] by blast
  show ?thesis by (simp add: processBatch_def a c first_rejection_accepted)
qed

lemma window_loop_accept:
  "store_accepts env \<Longrightarrow> \<exists>st'. window_loop env tid fn mt paths i st = (st', Inr ())"
proof (induction env tid fn mt paths i st rule: window_loop.induct)
  case (1 env tid fn mt paths i st)
  show ?case
  proof (cases "i < length paths")
    case False
    then show ?thesis by (simp add: window_loop.simps [of _ _ _ _ _ i])
  next
    case True
    obtain s1 where b: "processBatch env tid fn mt paths (window_indices i (length paths)) st = (s1, Inr ())"
      using processBatch_accept [OF "1.prems"] by blast
    from "1.IH" [OF True b [symmetric] refl "1.prems"]
    obtain st' where "window_loop env tid fn mt paths (i + CONCURRENCY) s1 = (st', Inr ())" by blast
    then show ?thesis using True b by (simp add: window_loop.simps [of _ _ _ _ _ i])
  qed
qed

lemma emit_events_results [simp]: "results (emit_events ev st) = results st"
  by (simp add: emit_events_def)

lemma emit_events_background [simp]: "background (emit_events ev st) = background st"
  by (simp add: emit_events_def)

lemma emit_events_trace [simp]: "trace (emit_events ev st) = trace st @ ev"
  by (simp add: emit_events_def)

lemma pipeline_accept:
  assumes acc: "store_accepts env"
    and perm: "\<forall>w. mset (completion_order env w) = mset w"
    and split: "splitAudioIntoChunks (media env) tmp = (jobs, Inr paths)"
  shows "\<exists>st. results st = map (\<lambda>i. snd (chunk_result env fn mt paths i)) [0..<length paths]
           \<and> background st = []
           \<and> pipeline_body env tid tmp fn mt initial_state = finish env tid tmp paths st"
proof -
  obtain d where d: "getAudioDuration (media env) tmp = Inr d"
    using getAudioDuration_total by blast
  let ?s0 = "emit_events (map Encode jobs)
               (emit_events [StoreWrite tid (message_update PreparingFragments)]
                 (emit_events [StoreWrite tid (message_update AnalysingAudio)] initial_state))"
  let ?s1 = "?s0\<lparr>results := replicate (length paths) None, completedChunks := 0\<rparr>"
  obtain s2 where w: "window_loop env tid fn mt paths 0 ?s1 = (s2, Inr ())"
    using window_loop_accept [OF acc] by blast
  have "results s2 = map (\<lambda>j. if 0 \<le> j then snd (chunk_result env fn mt paths j) else results ?s1 ! j)
                       [0..<length paths]"
    by (rule window_loop_results [OF w _ perm]) simp
  then have r: "results s2 = map (\<lambda>i. snd (chunk_result env fn mt paths i)) [0..<length paths]"
    by simp
  let ?s3 = "emit_events [StoreWrite tid (message_update AssemblingResult)] s2"
  have "pipeline_body env tid tmp fn mt initial_state = finish env tid tmp paths ?s3"
    by (simp add: pipeline_body_def seq_def updateTask_accept [OF acc] d split_step_def split w)
  moreover have "results ?s3 = map (\<lambda>i. snd (chunk_result env fn mt paths i)) [0..<length paths]"
    using r by simp
  moreover have "background ?s3 = []"
    using window_loop_background [OF w] by (simp add: initial_state_def)
  ultimately show ?thesis by blast
qed

lemma store_writes_append: "store_writes (a @ b) = store_writes a @ store_writes b"
  by (simp add: store_writes_def List.map_filter_def)

lemma store_writes_simps:
  "store_writes [] = []"
  "store_writes (e # es) =
     (case accepted_update e of None \<Rightarrow> store_writes es | Some u \<Rightarrow> u # store_writes es)"
  by (simp_all add: store_writes_def List.map_filter_simps split: option.splits)

lemma final_write_last:
  "store_writes (trace st) = ws @ [u] \<Longrightarrow> final_write (st, r) = Some u"
  by (cases ws) (simp_all add: final_write_def)

lemma finish_accept:
  assumes "store_accepts env"
  shows "finish env tid tmp paths st =
     (case merge_results (results st) of
        Inl e \<Rightarrow> (st, Inl e)
      | Inr acc \<Rightarrow>
          if allSegments acc = [] then (st, Inl NoSegmentsFromAnyFragment)
          else (emit_events [StoreWrite tid (completed_update env acc)]
                  (if length paths > 1 \<or> (length paths = 1 \<and> paths ! 0 \<noteq> tmp)
                   then emit_events [Unlink tmp] st else st), Inr ()))"
  by (simp add: finish_def Let_def updateTask_accept [OF assms] split: sum.splits)

lemma run_failed:
  assumes key: "api_key env = Some key" "key \<noteq> []"
    and acc: "store_accepts env"
    and pb: "pipeline_body env tid tmp fn mt initial_state = (st, Inl e)"
    and bg: "background st = []"
  shows "snd (runGeminiTranscription env tid tmp fn mt) = Inr ()
       \<and> final_write (runGeminiTranscription env tid tmp fn mt) = Some (failed_update e)"
proof -
  let ?final = "emit_events [Unlink tmp]
     (emit_events [StoreWrite tid (failed_update e)] (emit_events [LogPipelineError e] st))"
  have run: "runGeminiTranscription env tid tmp fn mt = (?final, Inr ())"
    using key by (simp add: runGeminiTranscription_def pb updateTask_accept [OF acc] bg)
  have "store_writes (trace ?final) = store_writes (trace st) @ [failed_update e]"
    by (simp add: store_writes_append store_writes_simps)
  then have "final_write (?final, Inr ()) = Some (failed_update e)"
    by (rule final_write_last)
  then show ?thesis by (simp add: run)
qed

lemma run_accept:
  assumes key: "api_key env = Some key" "key \<noteq> []"
    and acc: "store_accepts env"
    and perm: "\<forall>w. mset (completion_order env w) = mset w"
    and split: "splitAudioIntoChunks (media env) tmp = (jobs, Inr paths)"
  shows "snd (runGeminiTranscription env tid tmp fn mt) = Inr ()
       \<and> final_write (runGeminiTranscription env tid tmp fn mt) =
           Some (case merge_results (map (\<lambda>i. snd (chunk_result env fn mt paths i)) [0..<length paths]) of
                   Inl e \<Rightarrow> failed_update e
                 | Inr acc \<Rightarrow>
                     if allSegments acc = [] then failed_update NoSegmentsFromAnyFragment
                     else completed_update env acc)"
proof -
  let ?R = "map (\<lambda>i. snd (chunk_result env fn mt paths i)) [0..<length paths]"
  obtain st where st: "results st = ?R" and bg: "background st = []"
    and pb: "pipeline_body env tid tmp fn mt initial_state = finish env tid tmp paths st"
    using pipeline_accept [OF acc perm split] by blast
  show ?thesis
  proof (cases "merge_results ?R")
    case (Inl e)
    have f: "finish env tid tmp paths st = (st, Inl e)"
      using Inl by (simp add: finish_accept [OF acc] st)
    from run_failed [OF key acc pb [unfolded f] bg] Inl show ?thesis by simp
  next
    case (Inr macc)
    show ?thesis
    proof (cases "allSegments macc = []")
      case True
      have f: "finish env tid tmp paths st = (st, Inl NoSegmentsFromAnyFragment)"
        using True Inr by (simp add: finish_accept [OF acc] st)
      from run_failed [OF key acc pb [unfolded f] bg] Inr True show ?thesis by simp
    next
      case False
      let ?st1 = "if length paths > 1 \<or> (length paths = 1 \<and> paths ! 0 \<noteq> tmp)
                 then emit_events [Unlink tmp] st else st"
      let ?final = "emit_events [StoreWrite tid (completed_update env macc)] ?st1"
      have f: "finish env tid tmp paths st = (?final, Inr ())"
        using False Inr by (simp add: finish_accept [OF acc] st)
      have run: "runGeminiTranscription env tid tmp fn mt = (?final, Inr ())"
        using key by (simp add: runGeminiTranscription_def pb f)
      have "store_writes (trace ?final) = store_writes (trace ?st1) @ [completed_update env macc]"
        by (simp add: store_writes_append store_writes_simps)
      then have "final_write (?final, Inr ()) = Some (completed_update env macc)"
        by (rule final_write_last)
      then show ?thesis using False Inr by (simp add: run)
    qed
  qed
qed




lemma upt_three: "[0..<3] = [0, 1, 2]"
  by (simp add: upt_rec)


section \<open>Facts about the sample environments\<close>

lemma sample_env_basics:
  "api_key (sample_env d bad rej) = Some ''key''"
  "\<forall>w. mset (completion_order (sample_env d bad rej) w) = mset w"
  by (simp_all add: sample_env_def)

lemma sample_store_accepts: "store_accepts (sample_env d bad (\<lambda>k. False))"
  by (simp add: store_accepts_def sample_env_def sample_store_def directusRequest_def)

lemma sample_split_three:
  "splitAudioIntoChunks (media (sample_env (JNumber 1500) bad rej)) ''/tmp/a.mp3''
     = (three_jobs, Inr three_paths)"
proof -
  have "splitAudioIntoChunks (sample_media (JNumber 1500)) ''/tmp/a.mp3''
     = (three_jobs, Inr three_paths)"
    by code_simp
  then show ?thesis by (simp add: sample_env_def)
qed








lemma example_spec_merge:
  "spec_merge example_results =
     \<lparr>segments = Some [sample_segment,
        sample_segment\<lparr>seg_start := Str ''00:10:05'', seg_end := Str ''00:10:09''\<rparr>,
        sample_segment\<lparr>seg_start := Str ''00:20:05'', seg_end := Str ''00:20:09''\<rparr>],
      summary = Some (''first'' @ blank_line @ ''third''),
      detected_language = Some ''en'',
      speakers_count = Some 3\<rparr>"
  by code_simp

lemma sequential_results_chunk:
  "sequential_results env fn mt paths = map (\<lambda>i. snd (chunk_result env fn mt paths i)) [0..<length paths]"
  by (simp add: sequential_results_def chunk_result_def)

lemma in_order_env:
  "api_key (env\<lparr>completion_order := f\<rparr>) = api_key env"
  "media (env\<lparr>completion_order := f\<rparr>) = media env"
  "store_accepts (env\<lparr>completion_order := f\<rparr>) = store_accepts env"
  "sequential_results (env\<lparr>completion_order := f\<rparr>) fn mt paths = sequential_results env fn mt paths"
  "completed_update (env\<lparr>completion_order := f\<rparr>) acc = completed_update env acc"
  by (simp_all add: store_accepts_def sequential_results_def completed_update_def)

section \<open>One chunk: parsing, attempts and retries\<close>

lemma parseGeminiJson_total: "\<exists>r. parseGeminiJson lib raw = Inr r"
  by (simp add: parseGeminiJson_def split: sum.splits)

lemma attempt_body_accepts:
  "attempt_body env fp dn mt a gfn = (ev, g, Inr res) \<Longrightarrow> has_segments (Some res)"
  by (auto simp: attempt_body_def Let_def split: sum.splits prod.splits if_splits option.splits)

lemma retry_done:
  "\<not> a \<le> retries \<Longrightarrow> retry_loop env fp dn mt retries a gfn = ([], None)"
  by (simp add: retry_loop.simps [of _ _ _ _ _ a])

lemma retry_success:
  "a \<le> retries \<Longrightarrow> attempt_body env fp dn mt a gfn = (ev, g, Inr r) \<Longrightarrow>
     retry_loop env fp dn mt retries a gfn = (ev, Some r)"
  by (simp add: retry_loop.simps [of _ _ _ _ _ a])

lemma retry_last:
  "attempt_body env fp dn mt retries gfn = (ev, g, Inl err) \<Longrightarrow>
     retry_loop env fp dn mt retries retries gfn =
       (ev @ [LogAttemptFailed (retries + 1) dn err] @ cleanup_remote g @ [Unlink fp], None)"
  by (simp add: retry_loop.simps [of _ _ _ _ retries retries])

lemma retry_again:
  "a < retries \<Longrightarrow> attempt_body env fp dn mt a gfn = (ev, g, Inl err) \<Longrightarrow>
     retry_loop env fp dn mt retries a gfn =
       emit (ev @ [LogAttemptFailed (a + 1) dn err] @ cleanup_remote g @ [BackoffSleep (2 ^ a * 2000)])
         (retry_loop env fp dn mt retries (Suc a) g)"
  by (simp add: retry_loop.simps [of _ _ _ _ _ a])

lemma retry_loop_accepts:
  "snd (retry_loop env fp dn mt retries a gfn) = Some res \<Longrightarrow> has_segments (Some res)"
proof (induction env fp dn mt retries a gfn rule: retry_loop.induct)
  case (1 env fp dn mt retries a gfn)
  obtain ev g out where b: "attempt_body env fp dn mt a gfn = (ev, g, out)"
    by (cases "attempt_body env fp dn mt a gfn") auto
  consider (over) "\<not> a \<le> retries"
    | (ok) r where "a \<le> retries" "out = Inr r"
    | (final) err where "a = retries" "out = Inl err"
    | (again) err where "a < retries" "out = Inl err"
    by atomize_elim (cases out, auto)
  then show ?case
  proof cases
    case over
    with "1.prems" show ?thesis by (simp add: retry_done)
  next
    case ok
    with "1.prems" b have "r = res" by (simp add: retry_success)
    with b ok show ?thesis using attempt_body_accepts by blast
  next
    case final
    with "1.prems" b show ?thesis by (simp add: retry_last)
  next
    case again
    with "1.prems" b have s: "snd (retry_loop env fp dn mt retries (Suc a) g) = Some res"
      by (simp add: retry_again emit_def)
    have le: "a \<le> retries" and ne: "a \<noteq> retries" using again by simp_all
    show ?thesis
      by (rule "1.IH" [OF le b [symmetric] refl again(2) refl ne s])
  qed
qed

lemma poll_loop_active: "poll_loop n get nm k ACTIVE = ([], Inr ACTIVE)"
  by (cases n) simp_all

lemma attempt_body_rejects:
  assumes "upload_reply (replies env fp mt dn a) = Inr up"
    and "get_reply (replies env fp mt dn a) 0 = Inr ACTIVE"
    and "generate_reply (replies env fp mt dn a) = Inr txt"
    and "parseGeminiJson (json env) (case txt of None \<Rightarrow> [] | Some t \<Rightarrow> trim t) = Inr parsed"
    and "\<not> has_segments parsed"
  shows "snd (snd (attempt_body env fp dn mt a gfn)) = Inl EmptyOrInvalidSegments"
  using assms
  by (auto simp: attempt_body_def Let_def poll_loop_active split: option.splits)

lemma sample_parse_facts:
  "trim '' '' = []"
  "trim ''good'' \<noteq> []"
  "JSON_parse sample_json ''good'' = Inr (Some (sample_result ''talk'' ''en'' 2))"
  "trim ''good,'' \<noteq> []"
  "JSON_parse sample_json ''good,'' = Inl (Text ''SyntaxError'')"
  "jsonrepair sample_json ''good,'' = Inr ''good''"
  by code_simp+

lemma empty_reply_facts:
  "upload_reply (replies empty_reply_ai ''a.mp3'' ''audio/mpeg'' (WholeFile ''a.mp3'') 0)
     = Inr \<lparr>up_name = ''files/x'', up_uri = ''uri/x'', up_mimeType = ''audio/mpeg''\<rparr>"
  "get_reply (replies empty_reply_ai ''a.mp3'' ''audio/mpeg'' (WholeFile ''a.mp3'') 0) 0 = Inr ACTIVE"
  "generate_reply (replies empty_reply_ai ''a.mp3'' ''audio/mpeg'' (WholeFile ''a.mp3'') 0)
     = Inr (Some ''empty'')"
  "parseGeminiJson sample_json (trim ''empty'')
     = Inr (Some \<lparr>segments = Some [], summary = Some ''none'', detected_language = Some ''en'',
                    speakers_count = Some 1\<rparr>)"
  "\<not> has_segments (Some \<lparr>segments = Some [], summary = Some ''none'', detected_language = Some ''en'',
                    speakers_count = Some 1\<rparr>)"
  by code_simp+

lemma sample_json_of:
  "json empty_reply_ai = sample_json"
  "json (sample_ai bad) = sample_json"
  by (simp_all add: empty_reply_ai_def sample_ai_def)

lemma sample_chunk_ok:
  "snd (runSingleChunk (sample_ai (\<lambda>p. False)) ''a.mp3'' (WholeFile ''a.mp3'') ''audio/mpeg'' 2)
     = Some (sample_result ''talk'' ''en'' 2)"
  by code_simp

lemma upload_count_simps [simp]:
  "upload_count [] = 0"
  "upload_count (a @ b) = upload_count a + upload_count b"
  "upload_count (e # es) = (if is_upload e then 1 else 0) + upload_count es"
  by (simp_all add: upload_count_def)

lemma backoffs_simps [simp]:
  "backoffs [] = []"
  "backoffs (a @ b) = backoffs a @ backoffs b"
  "backoffs (e # es) = (case backoff_of e of None \<Rightarrow> backoffs es | Some ms \<Rightarrow> ms # backoffs es)"
  by (simp_all add: backoffs_def List.map_filter_def split: option.splits)

lemma cleanup_remote_quiet [simp]:
  "upload_count (cleanup_remote g) = 0" "backoffs (cleanup_remote g) = []"
  by (simp_all add: cleanup_remote_def split: option.splits)

lemma poll_loop_quiet:
  "upload_count (fst (poll_loop n get nm k st)) = 0 \<and> backoffs (fst (poll_loop n get nm k st)) = []"
  by (induction n get nm k st rule: poll_loop.induct)
     (auto split: sum.splits prod.splits)

lemma poll_loop_quiet' [simp]:
  "poll_loop n get nm k st = (pev, r) \<Longrightarrow> upload_count pev = 0 \<and> backoffs pev = []"
  using poll_loop_quiet [of n get nm k st] by simp

lemma attempt_body_shape:
  assumes "attempt_body env fp dn mt a gfn = (ev, g, out)"
  shows "\<exists>rest. ev = Upload fp mt dn # rest \<and> upload_count rest = 0 \<and> backoffs rest = []
           \<and> (\<forall>r. out = Inr r \<longrightarrow> rest \<noteq> [] \<and> last rest = Unlink fp)"
  using assms
  by (auto simp: attempt_body_def Let_def split: sum.splits prod.splits if_splits option.splits)

lemma attempt_body_deletes:
  assumes "attempt_body env fp dn mt a gfn = (ev, g, Inl err)"
    and "upload_reply (replies env fp mt dn a) = Inr up" and "up_name up \<noteq> []"
  shows "DeleteRemote (up_name up) \<in> set (ev @ cleanup_remote g)"
  using assms
  by (auto simp: attempt_body_def Let_def cleanup_remote_def
      split: sum.splits prod.splits if_splits option.splits)


lemma emit_fst_snd [simp]: "fst (emit ev r) = ev @ fst r" "snd (emit ev r) = snd r"
  by (simp_all add: emit_def)

lemma backoff_range:
  assumes "1 \<le> (c::nat)"
  shows "f a # map f [Suc a..<Suc a + c - 1] = map f [a..<a + (1 + c) - 1]"
proof -
  have "[a..<a + (1 + c) - 1] = a # [Suc a..<Suc a + c - 1]"
    using assms by (simp add: upt_rec [of a])
  then show ?thesis by simp
qed

lemma retry_loop_trace:
  "a \<le> retries \<Longrightarrow>
     1 \<le> upload_count (fst (retry_loop env fp dn mt retries a gfn))
     \<and> upload_count (fst (retry_loop env fp dn mt retries a gfn)) \<le> retries + 1 - a
     \<and> backoffs (fst (retry_loop env fp dn mt retries a gfn))
         = map (\<lambda>j. 2 ^ j * 2000) [a..<a + upload_count (fst (retry_loop env fp dn mt retries a gfn)) - 1]
     \<and> fst (retry_loop env fp dn mt retries a gfn) \<noteq> []
     \<and> last (fst (retry_loop env fp dn mt retries a gfn)) = Unlink fp
     \<and> (snd (retry_loop env fp dn mt retries a gfn) = None \<longrightarrow>
          upload_count (fst (retry_loop env fp dn mt retries a gfn)) = retries + 1 - a)"
proof (induction env fp dn mt retries a gfn rule: retry_loop.induct)
  case (1 env fp dn mt retries a gfn)
  obtain ev g out where b: "attempt_body env fp dn mt a gfn = (ev, g, out)"
    by (cases "attempt_body env fp dn mt a gfn") auto
  from attempt_body_shape [OF b] obtain rest where
    ev: "ev = Upload fp mt dn # rest" and q: "upload_count rest = 0" "backoffs rest = []"
    and ok: "\<forall>r. out = Inr r \<longrightarrow> rest \<noteq> [] \<and> last rest = Unlink fp" by blast
  consider (ok) r where "out = Inr r"
    | (final) err where "a = retries" "out = Inl err"
    | (again) err where "a < retries" "out = Inl err"
    using "1.prems" by atomize_elim (cases out, auto)
  then show ?case
  proof cases
    case ok
    then have "retry_loop env fp dn mt retries a gfn = (ev, Some r)"
      using "1.prems" b by (simp add: retry_success)
    then show ?thesis using ev q \<open>\<forall>r. out = Inr r \<longrightarrow> rest \<noteq> [] \<and> last rest = Unlink fp\<close> ok
      "1.prems" by simp
  next
    case final
    then have "retry_loop env fp dn mt retries a gfn =
       (ev @ [LogAttemptFailed (retries + 1) dn err] @ cleanup_remote g @ [Unlink fp], None)"
      using b by (simp add: retry_last)
    then show ?thesis using ev q final by simp
  next
    case again
    let ?next = "retry_loop env fp dn mt retries (Suc a) g"
    have r: "retry_loop env fp dn mt retries a gfn =
       emit (ev @ [LogAttemptFailed (a + 1) dn err] @ cleanup_remote g @ [BackoffSleep (2 ^ a * 2000)]) ?next"
      using again b by (simp add: retry_again)
    have le: "a \<le> retries" and ne: "a \<noteq> retries" and le': "Suc a \<le> retries" using again by simp_all
    note IH = "1.IH" [OF le b [symmetric] refl again(2) refl ne le']
    let ?c = "upload_count (fst ?next)"
    have c1: "1 \<le> ?c" and c2: "?c \<le> retries + 1 - Suc a"
      and bo: "backoffs (fst ?next) = map (\<lambda>j. 2 ^ j * 2000) [Suc a..<Suc a + ?c - 1]"
      and ne': "fst ?next \<noteq> []" and lst: "last (fst ?next) = Unlink fp"
      and none: "snd ?next = None \<longrightarrow> ?c = retries + 1 - Suc a"
      using IH by blast+
    have cnt: "upload_count (fst (retry_loop env fp dn mt retries a gfn)) = 1 + ?c"
      by (simp add: r ev q)
    have "backoffs (fst (retry_loop env fp dn mt retries a gfn)) = (2 ^ a * 2000) # backoffs (fst ?next)"
      by (simp add: r ev q)
    also have "\<dots> = map (\<lambda>j. 2 ^ j * 2000) [a..<a + (1 + ?c) - 1]"
      unfolding bo using c1 by (rule backoff_range)
    finally have bo': "backoffs (fst (retry_loop env fp dn mt retries a gfn))
         = map (\<lambda>j. 2 ^ j * 2000) [a..<a + upload_count (fst (retry_loop env fp dn mt retries a gfn)) - 1]"
      by (simp only: cnt)
    have l': "fst (retry_loop env fp dn mt retries a gfn) \<noteq> []
        \<and> last (fst (retry_loop env fp dn mt retries a gfn)) = Unlink fp"
      using ne' lst by (simp add: r)
    have n': "snd (retry_loop env fp dn mt retries a gfn) = None \<longrightarrow>
          upload_count (fst (retry_loop env fp dn mt retries a gfn)) = retries + 1 - a"
    proof -
      have sn: "snd (retry_loop env fp dn mt retries a gfn) = snd ?next" by (simp add: r)
      show ?thesis unfolding cnt sn using none c2 again(1) by auto
    qed
    show ?thesis using cnt c1 c2 again(1) bo' l' n' by simp
  qed
qed

lemma retry_loop_exhausts:
  "a \<le> retries \<Longrightarrow>
   (\<forall>j g. a \<le> j \<and> j \<le> retries \<longrightarrow> (\<exists>err. snd (snd (attempt_body env fp dn mt j g)) = Inl err)) \<Longrightarrow>
   snd (retry_loop env fp dn mt retries a gfn) = None"
proof (induction env fp dn mt retries a gfn rule: retry_loop.induct)
  case (1 env fp dn mt retries a gfn)
  obtain ev g out where b: "attempt_body env fp dn mt a gfn = (ev, g, out)"
    by (cases "attempt_body env fp dn mt a gfn") auto
  from "1.prems" obtain err where out: "out = Inl err"
    using b by (metis order_refl snd_conv)
  show ?case
  proof (cases "a = retries")
    case True
    then show ?thesis using b out by (simp add: retry_last)
  next
    case False
    then have lt: "a < retries" using "1.prems"(1) by simp
    have all: "\<forall>j g. Suc a \<le> j \<and> j \<le> retries \<longrightarrow>
                 (\<exists>err. snd (snd (attempt_body env fp dn mt j g)) = Inl err)"
      using "1.prems"(2) by auto
    have "snd (retry_loop env fp dn mt retries (Suc a) g) = None"
      using "1.IH" [OF "1.prems"(1) b [symmetric] refl out refl False _ all] lt by simp
    then show ?thesis using lt b out by (simp add: retry_again)
  qed
qed

lemma failing_attempt:
  "attempt_body (sample_ai (\<lambda>p. True)) ''a.mp3'' (WholeFile ''a.mp3'') ''audio/mpeg'' a g =
     ([Upload ''a.mp3'' ''audio/mpeg'' (WholeFile ''a.mp3''), GetFile ''files/x'',
       Generate ''uri/x'' ''audio/mpeg''], Some ''files/x'', Inl (Text ''503''))"
  by (simp add: attempt_body_def sample_ai_def poll_loop_active Let_def)

lemma failing_upload_reply:
  "upload_reply (replies (sample_ai (\<lambda>p. True)) ''a.mp3'' ''audio/mpeg'' (WholeFile ''a.mp3'') a)
     = Inr \<lparr>up_name = ''files/x'', up_uri = ''uri/x'', up_mimeType = ''audio/mpeg''\<rparr>"
  by (simp add: sample_ai_def)

section \<open>Rejected writes end the run\<close>

lemma rejections_append: "rejections (a @ b) = rejections a @ rejections b"
  by (simp add: rejections_def List.map_filter_def)

lemma rejections_simps:
  "rejections [] = []"
  "rejections (x # xs) = (case rejected_error x of None \<Rightarrow> rejections xs | Some e \<Rightarrow> e # rejections xs)"
  by (simp_all add: rejections_def List.map_filter_simps split: option.splits)

lemma rejections_no_store: "(\<And>x. x \<in> set ev \<Longrightarrow> \<not> is_store_event x) \<Longrightarrow> rejections ev = []"
proof (induction ev)
  case Nil
  show ?case by (simp add: rejections_simps)
next
  case (Cons x xs)
  have "\<not> is_store_event x" using Cons.prems by simp
  then have "rejected_error x = None" by (cases x) simp_all
  moreover have "rejections xs = []" using Cons by simp
  ultimately show ?case by (simp add: rejections_simps)
qed

lemma store_writes_no_store: "(\<And>x. x \<in> set ev \<Longrightarrow> \<not> is_store_event x) \<Longrightarrow> store_writes ev = []"
proof (induction ev)
  case Nil
  show ?case by (simp add: store_writes_simps)
next
  case (Cons x xs)
  have "\<not> is_store_event x" using Cons.prems by simp
  then have "accepted_update x = None" by (cases x) simp_all
  moreover have "store_writes xs = []" using Cons by simp
  ultimately show ?case by (simp add: store_writes_simps)
qed

lemma rejection_first_none: "rejections ev = [] \<Longrightarrow> rejection_first ev r"
  by (simp add: rejection_first_def)

lemma rejection_first_Inr: "rejection_first ev (Inr a) \<Longrightarrow> rejections ev = []"
  by (cases "rejections ev") (simp_all add: rejection_first_def)

lemma rejection_first_append:
  assumes "rejection_first ev1 (Inr a)" "rejection_first ev2 r"
  shows "rejection_first (ev1 @ ev2) r"
  using assms(2) rejection_first_Inr [OF assms(1)]
  by (simp add: rejection_first_def rejections_append)

lemma propagatesI:
  "(\<And>st st' r. m st = (st', r) \<Longrightarrow> \<exists>ev. trace st' = trace st @ ev \<and> rejection_first ev r) \<Longrightarrow>
     propagates m"
  by (simp add: propagates_def)

lemma propagatesD:
  "propagates m \<Longrightarrow> m st = (st', r) \<Longrightarrow> \<exists>ev. trace st' = trace st @ ev \<and> rejection_first ev r"
  by (simp add: propagates_def)

lemma propagates_seq:
  assumes "propagates m" "\<And>a. propagates (f a)"
  shows "propagates (seq m f)"
proof (rule propagatesI)
  fix st st' r assume s: "seq m f st = (st', r)"
  obtain s1 r1 where m: "m st = (s1, r1)" by (cases "m st")
  from propagatesD [OF assms(1) m] obtain ev1 where
    ev1: "trace s1 = trace st @ ev1" "rejection_first ev1 r1" by blast
  show "\<exists>ev. trace st' = trace st @ ev \<and> rejection_first ev r"
  proof (cases r1)
    case (Inl e)
    with s m have "st' = s1" "r = Inl e" by (simp_all add: seq_def)
    moreover have "rejection_first ev1 (Inl e :: message + 'b)"
      using ev1(2) Inl by (simp add: rejection_first_def split: list.splits)
    ultimately show ?thesis using ev1(1) by (intro exI [of _ ev1]) simp
  next
    case (Inr a)
    with s m have "f a s1 = (st', r)" by (simp add: seq_def)
    from propagatesD [OF assms(2) this] obtain ev2 where
      ev2: "trace st' = trace s1 @ ev2" "rejection_first ev2 r" by blast
    have "rejection_first ev1 (Inr a :: message + 'a)" using ev1(2) Inr by simp
    then have "rejection_first (ev1 @ ev2) r"
      using ev2(2) by (rule rejection_first_append)
    then show ?thesis using ev1(1) ev2(1) by (intro exI [of _ "ev1 @ ev2"]) simp
  qed
qed

lemma propagates_updateTask: "propagates (updateTask s tid u)"
proof (rule propagatesI)
  fix st st' r assume a: "updateTask s tid u st = (st', r)"
  show "\<exists>ev. trace st' = trace st @ ev \<and> rejection_first ev r"
  proof (cases "directusRequest (store_reply s (store_calls (trace st)) tid u)")
    case (Inl e)
    with a have "trace st' = trace st @ [StoreRejected tid u e]" "r = Inl e"
      by (auto simp: updateTask_def)
    moreover have "rejection_first [StoreRejected tid u e] (Inl e :: message + unit)"
      by (simp add: rejection_first_def rejections_simps)
    ultimately show ?thesis by (intro exI [of _ "[StoreRejected tid u e]"]) simp
  next
    case (Inr x)
    with a have "trace st' = trace st @ [StoreWrite tid u]"
      by (auto simp: updateTask_def)
    moreover have "rejection_first [StoreWrite tid u] r"
      by (simp add: rejection_first_def rejections_simps)
    ultimately show ?thesis by (intro exI [of _ "[StoreWrite tid u]"]) simp
  qed
qed

lemma propagates_return: "propagates (\<lambda>st. (st, Inr a))"
proof (rule propagatesI)
  fix st st' :: run_state and r :: "message + 'a"
  assume "(st, Inr a) = (st', r)"
  then have "trace st' = trace st @ []" "rejection_first [] r"
    by (simp_all add: rejection_first_def rejections_simps)
  then show "\<exists>ev. trace st' = trace st @ ev \<and> rejection_first ev r" by (intro exI [of _ "[]"]) simp
qed

lemma announce_trace:
  "announce env tid n idxs st = (st', answers) \<Longrightarrow>
     \<exists>ev. trace st' = trace st @ ev
        \<and> first_rejection answers = (case rejections ev of [] \<Rightarrow> None | e # es \<Rightarrow> Some e)"
proof (induction idxs arbitrary: st answers)
  case Nil
  then have "trace st' = trace st @ []" "first_rejection answers = None" by auto
  then show ?case by (intro exI [of _ "[]"]) (simp add: rejections_simps)
next
  case (Cons i rest)
  let ?u = "message_update (start_message n i)"
  obtain s1 r1 where u: "updateTask (store env) tid ?u st = (s1, r1)"
    by (cases "updateTask (store env) tid ?u st")
  obtain s2 rs where a: "announce env tid n rest s1 = (s2, rs)"
    by (cases "announce env tid n rest s1")
  from Cons.prems u a have eq: "s2 = st'" "answers = (i, r1) # rs" by simp_all
  from a eq have "announce env tid n rest s1 = (st', rs)" by simp
  from Cons.IH [OF this] obtain ev2 where
    ev2: "trace st' = trace s1 @ ev2"
         "first_rejection rs = (case rejections ev2 of [] \<Rightarrow> None | e # es \<Rightarrow> Some e)" by blast
  show ?case
  proof (cases r1)
    case (Inl e)
    with u have "trace s1 = trace st @ [StoreRejected tid ?u e]"
      by (auto simp: updateTask_def split: sum.splits)
    then have "trace st' = trace st @ ([StoreRejected tid ?u e] @ ev2)" using ev2(1) by simp
    moreover have "first_rejection answers =
        (case rejections ([StoreRejected tid ?u e] @ ev2) of [] \<Rightarrow> None | e # es \<Rightarrow> Some e)"
      using eq Inl by (simp add: rejections_simps)
    ultimately show ?thesis by (intro exI [of _ "[StoreRejected tid ?u e] @ ev2"]) simp
  next
    case (Inr x)
    with u have "trace s1 = trace st @ [StoreWrite tid ?u]"
      by (auto simp: updateTask_def split: sum.splits)
    then have "trace st' = trace st @ ([StoreWrite tid ?u] @ ev2)" using ev2(1) by simp
    moreover have "first_rejection answers =
        (case rejections ([StoreWrite tid ?u] @ ev2) of [] \<Rightarrow> None | e # es \<Rightarrow> Some e)"
      using eq Inr ev2(2) by (simp add: rejections_simps)
    ultimately show ?thesis by (intro exI [of _ "[StoreWrite tid ?u] @ ev2"]) simp
  qed
qed

lemma poll_loop_no_store:
  "x \<in> set (fst (poll_loop n get nm k st)) \<Longrightarrow> \<not> is_store_event x"
  by (induction n get nm k st rule: poll_loop.induct)
     (auto split: sum.splits prod.splits if_splits)

lemma cleanup_remote_no_store: "x \<in> set (cleanup_remote g) \<Longrightarrow> \<not> is_store_event x"
  by (auto simp: cleanup_remote_def split: option.splits if_splits)

lemma attempt_body_no_store:
  assumes "attempt_body env fp dn mt a gfn = (ev, g, out)" "x \<in> set ev"
  shows "\<not> is_store_event x"
proof -
  have p: "\<And>pev r y. poll_loop 60 (get_reply (replies env fp mt dn a))
              (up_name (projr (upload_reply (replies env fp mt dn a)))) 1 y = (pev, r) \<Longrightarrow>
            x \<in> set pev \<Longrightarrow> \<not> is_store_event x"
    using poll_loop_no_store by (metis fst_conv)
  show ?thesis
    using assms p
    by (auto simp: attempt_body_def Let_def split: sum.splits prod.splits if_splits option.splits)
qed

lemma retry_loop_no_store:
  "x \<in> set (fst (retry_loop env fp dn mt retries a gfn)) \<Longrightarrow> \<not> is_store_event x"
proof (induction env fp dn mt retries a gfn rule: retry_loop.induct)
  case (1 env fp dn mt retries a gfn)
  obtain ev g out where b: "attempt_body env fp dn mt a gfn = (ev, g, out)"
    by (cases "attempt_body env fp dn mt a gfn") auto
  note nb = attempt_body_no_store [OF b]
  consider (over) "\<not> a \<le> retries"
    | (ok) r where "a \<le> retries" "out = Inr r"
    | (final) err where "a = retries" "out = Inl err"
    | (again) err where "a < retries" "out = Inl err"
    by atomize_elim (cases out, auto)
  then show ?case
  proof cases
    case over
    with "1.prems" show ?thesis by (simp add: retry_done)
  next
    case ok
    with "1.prems" b nb show ?thesis by (simp add: retry_success)
  next
    case final
    with "1.prems" b nb cleanup_remote_no_store show ?thesis by (auto simp: retry_last)
  next
    case again
    have le: "a \<le> retries" and ne: "a \<noteq> retries" using again by simp_all
    note IH = "1.IH" [OF le b [symmetric] refl again(2) refl ne]
    from "1.prems" again b have
      "x \<in> set ev \<or> x = LogAttemptFailed (a + 1) dn err \<or> x \<in> set (cleanup_remote g)
       \<or> x = BackoffSleep (2 ^ a * 2000) \<or> x \<in> set (fst (retry_loop env fp dn mt retries (Suc a) g))"
      by (auto simp: retry_again)
    then show ?thesis using nb cleanup_remote_no_store IH by auto
  qed
qed

lemma chunk_result_no_store:
  assumes "chunk_result env fn mt paths i = (ev, cr)" and "x \<in> set ev"
  shows "\<not> is_store_event x"
proof -
  from assms have "x \<in> set (fst (retry_loop (ai env) (paths ! i)
      (display_name_of fn (length paths) i) mt 2 0 None))"
    by (simp add: chunk_result_def runSingleChunk_def)
  from retry_loop_no_store [OF this] show ?thesis .
qed

lemma propagates_after:
  assumes "\<And>x. propagates (m x)"
    and "\<And>st. \<exists>ev. trace (g st) = trace st @ ev \<and> rejections ev = []"
  shows "propagates (\<lambda>st. m (h st) (g st))"
proof (rule propagatesI)
  fix st st' r assume a: "m (h st) (g st) = (st', r)"
  from propagatesD [OF assms(1) a] obtain ev2 where
    ev2: "trace st' = trace (g st) @ ev2" "rejection_first ev2 r" by blast
  from assms(2) obtain ev1 where
    ev1: "trace (g st) = trace st @ ev1" "rejections ev1 = []" by blast
  have "rejection_first ev1 (Inr () :: message + unit)"
    using ev1(2) by (simp add: rejection_first_def)
  then have "rejection_first (ev1 @ ev2) r" using ev2(2) by (rule rejection_first_append)
  then show "\<exists>ev. trace st' = trace st @ ev \<and> rejection_first ev r"
    using ev1(1) ev2(1) by (intro exI [of _ "ev1 @ ev2"]) simp
qed

lemma propagates_pure: "propagates (\<lambda>st. (st, x))"
proof (rule propagatesI)
  fix st st' :: run_state and r :: "message + 'a"
  assume "(st, x) = (st', r)"
  then have "trace st' = trace st @ []" "rejection_first [] r"
    by (simp_all add: rejection_first_def rejections_simps)
  then show "\<exists>ev. trace st' = trace st @ ev \<and> rejection_first ev r" by (intro exI [of _ "[]"]) simp
qed

lemma chunk_task_unfold:
  assumes c: "chunk_result env fn mt paths i = (ev, cr)"
  shows "chunk_task env tid fn mt paths i st =
     updateTask (store env) tid
       (message_update (ProcessingPartPct (i + 1) (length paths)
          (progress_pct (completedChunks st + 1) (length paths))))
       (st\<lparr>trace := trace st @ ev, results := (results st)[i := cr],
           completedChunks := completedChunks st + 1\<rparr>)"
  by (simp add: chunk_task_def c Let_def)

lemma propagates_chunk_task: "propagates (chunk_task env tid fn mt paths i)"
proof -
  obtain ev cr where c: "chunk_result env fn mt paths i = (ev, cr)"
    by (cases "chunk_result env fn mt paths i")
  let ?g = "\<lambda>st. st\<lparr>trace := trace st @ ev, results := (results st)[i := cr],
                      completedChunks := completedChunks st + 1\<rparr>"
  let ?h = "\<lambda>st. message_update (ProcessingPartPct (i + 1) (length paths)
                     (progress_pct (completedChunks st + 1) (length paths)))"
  let ?m = "\<lambda>u. updateTask (store env) tid u"
  have eq: "chunk_task env tid fn mt paths i = (\<lambda>st. ?m (?h st) (?g st))"
    by (rule ext) (rule chunk_task_unfold [OF c])
  have "propagates (\<lambda>st. ?m (?h st) (?g st))"
  proof (rule propagates_after [where m = ?m and h = ?h and g = ?g])
    show "\<And>x. propagates (?m x)" by (rule propagates_updateTask)
    have "rejections ev = []" by (rule rejections_no_store) (rule chunk_result_no_store [OF c])
    then show "\<And>st. \<exists>eva. trace (?g st) = trace st @ eva \<and> rejections eva = []"
      by (intro exI [of _ ev]) simp
  qed
  then show ?thesis by (simp only: eq)
qed

lemma complete_pointwise:
  "complete env tid fn mt paths idxs st = (st', r) \<Longrightarrow>
     \<exists>ev. trace st' = trace st @ ev \<and> rejection_first ev r"
proof (induction idxs arbitrary: st)
  case Nil
  then have "trace st' = trace st @ []" "rejection_first [] r"
    by (auto simp: rejection_first_def rejections_simps)
  then show ?case by (intro exI [of _ "[]"]) simp
next
  case (Cons i rest)
  obtain s1 r1 where c: "chunk_task env tid fn mt paths i st = (s1, r1)"
    by (cases "chunk_task env tid fn mt paths i st")
  from propagatesD [OF propagates_chunk_task c] obtain ev1 where
    ev1: "trace s1 = trace st @ ev1" "rejection_first ev1 r1" by blast
  show ?case
  proof (cases r1)
    case (Inl e)
    with Cons.prems c have "trace st' = trace s1" "r = Inl e" by auto
    moreover have "rejection_first ev1 (Inl e :: message + unit)"
      using ev1(2) Inl by (simp add: rejection_first_def split: list.splits)
    ultimately show ?thesis using ev1(1) by (intro exI [of _ ev1]) simp
  next
    case (Inr x)
    with Cons.prems c have "complete env tid fn mt paths rest s1 = (st', r)" by simp
    from Cons.IH [OF this] obtain ev2 where
      ev2: "trace st' = trace s1 @ ev2" "rejection_first ev2 r" by blast
    have "rejection_first ev1 (Inr x :: message + unit)" using ev1(2) Inr by simp
    then have "rejection_first (ev1 @ ev2) r" using ev2(2) by (rule rejection_first_append)
    then show ?thesis using ev1(1) ev2(1) by (intro exI [of _ "ev1 @ ev2"]) simp
  qed
qed

lemma propagates_processBatch: "propagates (processBatch env tid fn mt paths w)"
proof (rule propagatesI)
  fix st st' r assume b: "processBatch env tid fn mt paths w st = (st', r)"
  obtain s1 answers where a: "announce env tid (length paths) w st = (s1, answers)"
    by (cases "announce env tid (length paths) w st")
  from announce_trace [OF a] obtain ev1 where
    ev1: "trace s1 = trace st @ ev1"
         "first_rejection answers = (case rejections ev1 of [] \<Rightarrow> None | e # es \<Rightarrow> Some e)" by blast
  show "\<exists>ev. trace st' = trace st @ ev \<and> rejection_first ev r"
  proof (cases "first_rejection answers")
    case (Some e)
    with b a have "trace st' = trace s1" "r = Inl e" by (auto simp: processBatch_def)
    moreover have "rejection_first ev1 (Inl e :: message + unit)"
      using ev1(2) Some by (simp add: rejection_first_def split: list.splits)
    ultimately show ?thesis using ev1(1) by (intro exI [of _ ev1]) simp
  next
    case None
    with b a have "complete env tid fn mt paths (completion_order env w) s1 = (st', r)"
      by (simp add: processBatch_def)
    from complete_pointwise [OF this] obtain ev2 where
      ev2: "trace st' = trace s1 @ ev2" "rejection_first ev2 r" by blast
    have "rejections ev1 = []" using ev1(2) None by (simp split: list.splits)
    then have "rejection_first ev1 (Inr () :: message + unit)" by (rule rejection_first_none)
    then have "rejection_first (ev1 @ ev2) r" using ev2(2) by (rule rejection_first_append)
    then show ?thesis using ev1(1) ev2(1) by (intro exI [of _ "ev1 @ ev2"]) simp
  qed
qed

lemma window_loop_pointwise:
  "window_loop env tid fn mt paths i st = (st', r) \<Longrightarrow>
     \<exists>ev. trace st' = trace st @ ev \<and> rejection_first ev r"
proof (induction env tid fn mt paths i st arbitrary: st' r rule: window_loop.induct)
  case (1 env tid fn mt paths i st)
  show ?case
  proof (cases "i < length paths")
    case False
    with "1.prems" have "st' = st" "r = Inr ()" by (simp_all add: window_loop.simps [of _ _ _ _ _ i])
    then have "trace st' = trace st @ []" "rejection_first [] r"
      by (simp_all add: rejection_first_def rejections_simps)
    then show ?thesis by (intro exI [of _ "[]"]) simp
  next
    case True
    let ?w = "window_indices i (length paths)"
    obtain s1 r1 where b: "processBatch env tid fn mt paths ?w st = (s1, r1)"
      by (cases "processBatch env tid fn mt paths ?w st")
    from propagatesD [OF propagates_processBatch b] obtain ev1 where
      ev1: "trace s1 = trace st @ ev1" "rejection_first ev1 r1" by blast
    show ?thesis
    proof (cases r1)
      case (Inl e)
      with "1.prems" True b have "st' = s1" "r = Inl e"
        by (simp_all add: window_loop.simps [of _ _ _ _ _ i])
      moreover have "rejection_first ev1 (Inl e :: message + unit)" using ev1(2) Inl by simp
      ultimately show ?thesis using ev1(1) by (intro exI [of _ ev1]) simp
    next
      case (Inr x)
      with "1.prems" True b
      have w: "window_loop env tid fn mt paths (i + CONCURRENCY) s1 = (st', r)"
        by (simp add: window_loop.simps [of _ _ _ _ _ i])
      from "1.IH" [OF True b [symmetric] Inr w] obtain ev2 where
        ev2: "trace st' = trace s1 @ ev2" "rejection_first ev2 r" by blast
      have "rejection_first ev1 (Inr x :: message + unit)" using ev1(2) Inr by simp
      then have "rejection_first (ev1 @ ev2) r" using ev2(2) by (rule rejection_first_append)
      then show ?thesis using ev1(1) ev2(1) by (intro exI [of _ "ev1 @ ev2"]) simp
    qed
  qed
qed

lemma propagates_window_loop: "propagates (window_loop env tid fn mt paths i)"
  by (rule propagatesI) (rule window_loop_pointwise)

lemma propagates_split_step: "propagates (split_step env tmp)"
proof (rule propagatesI)
  fix st st' r assume a: "split_step env tmp st = (st', r)"
  obtain jobs x where s: "splitAudioIntoChunks (media env) tmp = (jobs, x)"
    by (cases "splitAudioIntoChunks (media env) tmp")
  from a s have "trace st' = trace st @ map Encode jobs"
    by (auto simp: split_step_def)
  moreover have "rejection_first (map Encode jobs) r"
    by (rule rejection_first_none) (rule rejections_no_store, auto)
  ultimately show "\<exists>ev. trace st' = trace st @ ev \<and> rejection_first ev r"
    by (intro exI [of _ "map Encode jobs"]) simp
qed

lemma propagates_finish: "propagates (finish env tid tmp paths)"
proof (rule propagatesI)
  fix st st' r assume a: "finish env tid tmp paths st = (st', r)"
  have none: "rejection_first [] r" by (simp add: rejection_first_def rejections_simps)
  consider (throws) e where "merge_results (results st) = Inl e"
    | (empty) acc where "merge_results (results st) = Inr acc" "allSegments acc = []"
    | (merged) acc where "merge_results (results st) = Inr acc" "allSegments acc \<noteq> []"
    by (cases "merge_results (results st)") auto
  then show "\<exists>ev. trace st' = trace st @ ev \<and> rejection_first ev r"
  proof cases
    case throws
    with a have "st' = st" by (simp add: finish_def Let_def)
    then have "trace st' = trace st @ []" by simp
    then show ?thesis using none by (intro exI [of _ "[]"]) simp
  next
    case empty
    with a have "st' = st" by (simp add: finish_def Let_def)
    then have "trace st' = trace st @ []" by simp
    then show ?thesis using none by (intro exI [of _ "[]"]) simp
  next
    case merged
    let ?st1 = "if length paths > 1 \<or> (length paths = 1 \<and> paths ! 0 \<noteq> tmp)
                then emit_events [Unlink tmp] st else st"
    from a merged have u: "updateTask (store env) tid (completed_update env acc) ?st1 = (st', r)"
      by (simp add: finish_def Let_def)
    from propagatesD [OF propagates_updateTask u] obtain ev2 where
      ev2: "trace st' = trace ?st1 @ ev2" "rejection_first ev2 r" by blast
    obtain ev1 where ev1: "trace ?st1 = trace st @ ev1" "ev1 = [] \<or> ev1 = [Unlink tmp]"
      by (cases "length paths > 1 \<or> (length paths = 1 \<and> paths ! 0 \<noteq> tmp)") auto
    have "rejection_first ev1 (Inr () :: message + unit)"
      using ev1(2) by (auto simp: rejection_first_def rejections_simps)
    then have "rejection_first (ev1 @ ev2) r" using ev2(2) by (rule rejection_first_append)
    then show ?thesis using ev1(1) ev2(1) by (intro exI [of _ "ev1 @ ev2"]) simp
  qed
qed

lemma propagates_windows_from_start:
  "propagates (\<lambda>st. window_loop env tid fn mt paths 0
                 (st\<lparr>results := replicate (length paths) None, completedChunks := 0\<rparr>))"
proof -
  let ?g = "\<lambda>st::run_state. st\<lparr>results := replicate (length paths) None, completedChunks := 0\<rparr>"
  let ?m = "\<lambda>x::unit. window_loop env tid fn mt paths 0"
  have "propagates (\<lambda>st. ?m () (?g st))"
  proof (rule propagates_after [where m = ?m and h = "\<lambda>st. ()" and g = ?g])
    show "\<And>x. propagates (?m x)" by (rule propagates_window_loop)
    show "\<And>st. \<exists>ev. trace (?g st) = trace st @ ev \<and> rejections ev = []"
      by (intro exI [of _ "[]"]) (simp add: rejections_simps)
  qed
  then show ?thesis by simp
qed

lemma propagates_pipeline_body: "propagates (pipeline_body env tid tmp fn mt)"
  unfolding pipeline_body_def
  by (intro propagates_seq propagates_updateTask propagates_pure propagates_split_step
      propagates_windows_from_start propagates_finish)

lemma body_rejection:
  assumes "pipeline_body env tid tmp fn mt initial_state = (st, r)"
    and "rejections (trace st) = e # es"
  shows "r = Inl e"
proof -
  from propagatesD [OF propagates_pipeline_body assms(1)] obtain ev where
    "trace st = trace initial_state @ ev" "rejection_first ev r" by blast
  then have "trace st = ev" "rejection_first ev r" by (simp_all add: initial_state_def)
  then show ?thesis using assms(2) by (simp add: rejection_first_def)
qed

lemma chunk_task_writes:
  assumes "chunk_task env tid fn mt paths i st = (st', r)"
  shows "\<exists>ev. trace st' = trace st @ ev \<and> list_all is_progress_update (store_writes ev)"
proof -
  obtain ev cr where c: "chunk_result env fn mt paths i = (ev, cr)"
    by (cases "chunk_result env fn mt paths i")
  let ?u = "message_update (ProcessingPartPct (i + 1) (length paths)
              (progress_pct (completedChunks st + 1) (length paths)))"
  let ?st1 = "st\<lparr>trace := trace st @ ev, results := (results st)[i := cr],
                 completedChunks := completedChunks st + 1\<rparr>"
  have u: "updateTask (store env) tid ?u ?st1 = (st', r)"
    using assms by (simp add: chunk_task_unfold [OF c])
  have ev: "store_writes ev = []"
    by (rule store_writes_no_store) (rule chunk_result_no_store [OF c])
  have p: "is_progress_update ?u"
    by (simp add: is_progress_update_def message_update_def)
  show ?thesis
  proof (cases "directusRequest (store_reply (store env) (store_calls (trace ?st1)) tid ?u)")
    case (Inl e)
    with u have "trace st' = trace st @ (ev @ [StoreRejected tid ?u e])"
      by (auto simp: updateTask_def)
    moreover have "list_all is_progress_update (store_writes (ev @ [StoreRejected tid ?u e]))"
      by (simp add: store_writes_append ev store_writes_simps)
    ultimately show ?thesis by (intro exI [of _ "ev @ [StoreRejected tid ?u e]"]) simp
  next
    case (Inr x)
    with u have "trace st' = trace st @ (ev @ [StoreWrite tid ?u])"
      by (auto simp: updateTask_def)
    moreover have "list_all is_progress_update (store_writes (ev @ [StoreWrite tid ?u]))"
      using p by (simp add: store_writes_append ev store_writes_simps)
    ultimately show ?thesis by (intro exI [of _ "ev @ [StoreWrite tid ?u]"]) simp
  qed
qed

lemma run_background_writes:
  "\<exists>bg. trace (run_background env tid fn mt tasks st) = trace st @ bg
        \<and> list_all is_progress_update (store_writes bg)"
proof (induction tasks arbitrary: st)
  case Nil
  have "trace (run_background env tid fn mt [] st) = trace st @ []"
       "list_all is_progress_update (store_writes [])"
    by (simp_all add: store_writes_simps)
  then show ?case by (intro exI [of _ "[]"]) simp
next
  case (Cons task rest)
  obtain paths i where task: "task = (paths, i)" by (cases task)
  obtain s1 r1 where c: "chunk_task env tid fn mt paths i st = (s1, r1)"
    by (cases "chunk_task env tid fn mt paths i st")
  from chunk_task_writes [OF c] obtain ev1 where
    ev1: "trace s1 = trace st @ ev1" "list_all is_progress_update (store_writes ev1)" by blast
  from Cons.IH [of s1] obtain ev2 where
    ev2: "trace (run_background env tid fn mt rest s1) = trace s1 @ ev2"
         "list_all is_progress_update (store_writes ev2)" by blast
  have "trace (run_background env tid fn mt (task # rest) st) = trace st @ (ev1 @ ev2)"
    using ev1(1) ev2(1) by (simp add: task c)
  moreover have "list_all is_progress_update (store_writes (ev1 @ ev2))"
    using ev1(2) ev2(2) by (simp add: store_writes_append)
  ultimately show ?case by (intro exI [of _ "ev1 @ ev2"]) simp
qed

lemma progress_update_status: "is_progress_update u \<Longrightarrow> upd_status u = None"
  by (auto simp: is_progress_update_def message_update_def no_update_def
      split: option.splits message.splits)

lemma progress_updates_statuses:
  "list_all is_progress_update us \<Longrightarrow> List.map_filter upd_status us = []"
  by (induction us) (simp_all add: List.map_filter_simps progress_update_status)

lemma store_calls_log: "store_calls (tr @ [LogPipelineError e]) = store_calls tr"
  by (simp add: store_calls_def)

lemma final_status_last:
  "List.map_filter upd_status (store_writes (trace st)) = ss @ [s] \<Longrightarrow> final_status (st, r) = Some s"
  by (cases ss) (simp_all add: final_status_def)

lemma rejecting_env_facts:
  "api_key rejecting_env = Some ''key''"
  "rejections (trace (fst (pipeline_body rejecting_env ''t1'' ''/tmp/a.mp3'' ''a.mp3'' ''audio/mpeg''
                            initial_state))) = [DirectusError 503 ''unavailable'']"
  "directusRequest (store_reply (store rejecting_env)
      (store_calls (trace (fst (pipeline_body rejecting_env ''t1'' ''/tmp/a.mp3'' ''a.mp3''
                                  ''audio/mpeg'' initial_state))))
      ''t1'' (failed_update (DirectusError 503 ''unavailable''))) = Inr ()"
  "has_segments (snd (chunk_result rejecting_env ''a.mp3'' ''audio/mpeg'' [''/tmp/a.mp3''] 0))"
  "background (fst (pipeline_body rejecting_env ''t1'' ''/tmp/a.mp3'' ''a.mp3'' ''audio/mpeg''
                      initial_state)) = []"
  by code_simp+

lemma sibling_env_facts:
  "api_key sibling_env = Some ''key''"
  "rejections (trace (fst (pipeline_body sibling_env ''t1'' ''/tmp/a.mp3'' ''a.mp3'' ''audio/mpeg''
                            initial_state))) = [DirectusError 503 ''unavailable'']"
  "directusRequest (store_reply (store sibling_env)
      (store_calls (trace (fst (pipeline_body sibling_env ''t1'' ''/tmp/a.mp3'' ''a.mp3''
                                  ''audio/mpeg'' initial_state))))
      ''t1'' (failed_update (DirectusError 503 ''unavailable''))) = Inr ()"
  "background (fst (pipeline_body sibling_env ''t1'' ''/tmp/a.mp3'' ''a.mp3'' ''audio/mpeg''
                      initial_state)) = [([''/tmp/a_chunk_0.mp3'', ''/tmp/a_chunk_1.mp3''], 1)]"
  "final_write (runGeminiTranscription sibling_env ''t1'' ''/tmp/a.mp3'' ''a.mp3'' ''audio/mpeg'')
     = Some (message_update (ProcessingPartPct 2 2 53))"
  by code_simp+

section \<open>Claims about \<open>addOffsetToTimestamp\<close>\<close>

text \<open>
  Claim C10. A timecode with fewer than three colon-separated fields is read from the
  left: \<open>a:b\<close> gives the same result as \<open>a:b:0\<close> (hours \<open>a\<close>, minutes \<open>b\<close>) and
  a single field \<open>a\<close> the same as \<open>a:0:0\<close> (hours \<open>a\<close>). For fields of decimal
  digits the total is \<open>a * 3600 + b * 60\<close> seconds plus the offset, whatever the size
  of \<open>b\<close>: nothing checks that minutes or seconds are below 60.
\<close>

theorem short_timecode_fields:
  assumes "CHR '':'' \<notin> set a" and "CHR '':'' \<notin> set b"
  shows "addOffsetToTimestamp (a @ '':'' @ b) off = addOffsetToTimestamp (a @ '':'' @ b @ '':0'') off
       \<and> addOffsetToTimestamp a off = addOffsetToTimestamp (a @ '':0:0'') off
       \<and> (list_all is_digit a \<and> list_all is_digit b \<and> 0 \<le> off \<longrightarrow>
            addOffsetToTimestamp (a @ '':'' @ b) off =
              render_hms (int (digits_val a) * 3600 + int (digits_val b) * 60 + off)
          \<and> addOffsetToTimestamp a off = render_hms (int (digits_val a) * 3600 + off))"
  using two_fields_as_three [OF assms, of off] one_field_as_three [OF assms(1), of off]
    two_fields_seconds [of a b off] one_field_seconds [of a off]
  by simp

theorem short_timecode_fields_witness:
  "CHR '':'' \<notin> set ''1'' \<and> CHR '':'' \<notin> set ''90''
   \<and> addOffsetToTimestamp ''1:90'' 0 = addOffsetToTimestamp ''1:90:0'' 0
   \<and> addOffsetToTimestamp ''1:90'' 0 = ''02:30:00''
   \<and> addOffsetToTimestamp ''1'' 0 = ''01:00:00''"
proof -
  have h: "CHR '':'' \<notin> set ''1''" "CHR '':'' \<notin> set ''90''" by simp_all
  have e: "addOffsetToTimestamp ''1:90:0'' 0 = ''02:30:00''"
    "addOffsetToTimestamp ''1:0:0'' 0 = ''01:00:00''" by code_simp+
  show ?thesis using short_timecode_fields [OF h, of 0] e by simp
qed

text \<open>
  Claim C5. For a timecode \<open>t\<close> of three digit fields and offsets \<open>a, b \<ge> 0\<close>,
  offsetting by \<open>a\<close> and then by \<open>b\<close> gives the same string as offsetting by
  \<open>a + b\<close>. The result has three colon-separated digit fields: the hours field has at
  least two digits and holds the total divided by 3600 with no cap, the minutes and
  seconds fields have exactly two digits.
\<close>

theorem offset_composable:
  assumes "is_timecode t" and "0 \<le> a" and "0 \<le> b"
  shows "addOffsetToTimestamp (addOffsetToTimestamp t a) b = addOffsetToTimestamp t (a + b)
       \<and> (\<exists>hh mm ss. split_colon (addOffsetToTimestamp t a) = [hh, mm, ss]
            \<and> list_all is_digit hh \<and> 2 \<le> length hh
            \<and> int (digits_val hh) = (timecode_seconds t + a) div 3600
            \<and> list_all is_digit mm \<and> length mm = 2
            \<and> int (digits_val mm) = (timecode_seconds t + a) mod 3600 div 60
            \<and> list_all is_digit ss \<and> length ss = 2
            \<and> int (digits_val ss) = (timecode_seconds t + a) mod 60)"
proof -
  let ?T = "timecode_seconds t + a"
  have T: "0 \<le> ?T" using assms(2) timecode_seconds_nonneg [of t] by simp
  have r: "addOffsetToTimestamp t a = render_hms ?T"
    using assms by (simp add: addOffset_timecode)
  have "addOffsetToTimestamp (render_hms ?T) b = render_hms (timecode_seconds (render_hms ?T) + b)"
    using is_timecode_render assms(3) by (rule addOffset_timecode)
  also have "\<dots> = render_hms (?T + b)" using T by (simp only: timecode_seconds_render)
  also have "\<dots> = addOffsetToTimestamp t (a + b)"
    using assms by (simp add: addOffset_timecode add.assoc)
  finally have comp: "addOffsetToTimestamp (addOffsetToTimestamp t a) b = addOffsetToTimestamp t (a + b)"
    by (simp only: r)
  have d1: "0 \<le> ?T div 3600" using T by (simp add: pos_imp_zdiv_nonneg_iff)
  have d2: "0 \<le> ?T mod 3600 div 60" by (simp add: pos_imp_zdiv_nonneg_iff)
  have d2': "?T mod 3600 div 60 < 100"
  proof -
    have "?T mod 3600 < 3600" by simp
    then have "?T mod 3600 div 60 < 60" by linarith
    then show ?thesis by linarith
  qed
  have d3: "0 \<le> ?T mod 60" "?T mod 60 < 100"
  proof -
    show "0 \<le> ?T mod 60" by simp
    have "?T mod 60 < 60" by simp
    then show "?T mod 60 < 100" by linarith
  qed
  have "split_colon (addOffsetToTimestamp t a) =
          [two_digits (?T div 3600), two_digits (?T mod 3600 div 60), two_digits (?T mod 60)]"
    by (simp only: r split_render_hms)
  moreover have "int (digits_val (two_digits (?T div 3600))) = ?T div 3600"
    using d1 by (rule two_digits_val)
  moreover have "int (digits_val (two_digits (?T mod 3600 div 60))) = ?T mod 3600 div 60"
    using d2 by (rule two_digits_val)
  moreover have "int (digits_val (two_digits (?T mod 60))) = ?T mod 60"
    using d3(1) by (rule two_digits_val)
  moreover have "length (two_digits (?T mod 3600 div 60)) = 2"
    using d2 d2' by (rule two_digits_length_eq)
  moreover have "length (two_digits (?T mod 60)) = 2"
    using d3 by (rule two_digits_length_eq)
  ultimately show ?thesis
    using comp two_digits_digits two_digits_length_ge by blast
qed

theorem offset_composable_witness:
  "is_timecode ''23:59:59'' \<and> (0::int) \<le> 1 \<and> (0::int) \<le> 600
   \<and> addOffsetToTimestamp (addOffsetToTimestamp ''23:59:59'' 1) 600
       = addOffsetToTimestamp ''23:59:59'' (1 + 600)
   \<and> addOffsetToTimestamp ''23:59:59'' 1 = ''24:00:00''
   \<and> addOffsetToTimestamp ''23:59:59'' 601 = ''24:10:00''"
proof -
  have h: "is_timecode ''23:59:59''" by code_simp
  have e: "addOffsetToTimestamp ''23:59:59'' 1 = ''24:00:00''"
    "addOffsetToTimestamp ''23:59:59'' 601 = ''24:10:00''" by code_simp+
  show ?thesis using offset_composable [OF h, of 1 600] h e by simp
qed

section \<open>Claims about probing and splitting\<close>

text \<open>
  Claim C2. When the probed duration \<open>D\<close> exceeds the chunk size \<open>C\<close> and every encoder
  run ends without error, the splitter returns \<open>ceil(D / C)\<close> chunk paths, one encoder
  run per chunk; chunk \<open>i\<close> is cut from the source at start \<open>i * C\<close> with duration
  \<open>min C (D - i * C)\<close>; the durations sum to \<open>D\<close>; the last one is
  \<open>D - floor(D / C) * C\<close>, or \<open>C\<close> when \<open>D\<close> is a multiple of \<open>C\<close>. When the duration
  is unknown or at most \<open>C\<close>, the result is the source path alone and nothing is
  encoded.
\<close>

theorem chunk_coverage:
  fixes D :: rat
  shows
  "(getAudioDuration env p = Inr (Some D) \<and> of_int CHUNK_DURATION_SEC < D
      \<and> (\<forall>job. ffmpeg_run env job = None) \<longrightarrow>
     (\<exists>jobs paths. splitAudioIntoChunks env p = (jobs, Inr paths)
        \<and> length jobs = nat \<lceil>D / of_int CHUNK_DURATION_SEC\<rceil> \<and> length paths = length jobs
        \<and> (\<forall>i < length jobs.
              job_input (jobs ! i) = p \<and> job_output (jobs ! i) = paths ! i
              \<and> job_start (jobs ! i) = of_nat i * of_int CHUNK_DURATION_SEC
              \<and> job_duration (jobs ! i)
                  = min (of_int CHUNK_DURATION_SEC) (D - of_nat i * of_int CHUNK_DURATION_SEC))
        \<and> sum_list (map job_duration jobs) = D
        \<and> job_duration (last jobs)
            = (if of_int \<lfloor>D / of_int CHUNK_DURATION_SEC\<rfloor> * of_int CHUNK_DURATION_SEC = D
               then of_int CHUNK_DURATION_SEC
               else D - of_int \<lfloor>D / of_int CHUNK_DURATION_SEC\<rfloor> * of_int CHUNK_DURATION_SEC)))
   \<and> ((getAudioDuration env p = Inr None
        \<or> (\<exists>D'. getAudioDuration env p = Inr (Some D') \<and> D' \<le> of_int CHUNK_DURATION_SEC)) \<longrightarrow>
       splitAudioIntoChunks env p = ([], Inr [p]))"
proof (intro conjI impI)
  assume "getAudioDuration env p = Inr None
        \<or> (\<exists>D'. getAudioDuration env p = Inr (Some D') \<and> D' \<le> of_int CHUNK_DURATION_SEC)"
  then show "splitAudioIntoChunks env p = ([], Inr [p])"
    by (intro split_short) (simp add: CHUNK_DURATION_SEC_def)
next
  assume a: "getAudioDuration env p = Inr (Some D) \<and> of_int CHUNK_DURATION_SEC < D
      \<and> (\<forall>job. ffmpeg_run env job = None)"
  then have D: "600 < D" by (simp add: CHUNK_DURATION_SEC_def)
  let ?n = "nat \<lceil>D / 600\<rceil>"
  let ?jobs = "map (chunk_job env p D) [0..<?n]"
  let ?paths = "map (chunk_path env p) [0..<?n]"
  have C: "(of_int CHUNK_DURATION_SEC :: rat) = 600" by (simp add: CHUNK_DURATION_SEC_def)
  have s: "splitAudioIntoChunks env p = (?jobs, Inr ?paths)"
    using a D by (simp add: split_long)
  have n2: "2 \<le> ?n" using ceil_bounds(1) [OF D] .
  have len: "length ?jobs = ?n" "length ?paths = length ?jobs" by simp_all
  have each: "\<forall>i < length ?jobs.
              job_input (?jobs ! i) = p \<and> job_output (?jobs ! i) = ?paths ! i
              \<and> job_start (?jobs ! i) = of_nat i * 600
              \<and> job_duration (?jobs ! i) = min 600 (D - of_nat i * 600)"
    by (simp add: chunk_job_sel C chunk_len_def)
  have total: "sum_list (map job_duration ?jobs) = D"
    by (simp only: map_map job_duration_chunk_job chunk_len_sum [OF D])
  have "0 < ?n" using n2 by linarith
  then have "last ?jobs = chunk_job env p D (?n - 1)"
    by (rule last_map_upt)
  then have "job_duration (last ?jobs) = D - of_nat (?n - 1) * 600"
    by (simp only: chunk_job_sel chunk_len_last [OF D])
  then have lst: "job_duration (last ?jobs)
            = (if of_int \<lfloor>D / 600\<rfloor> * 600 = D then 600 else D - of_int \<lfloor>D / 600\<rfloor> * 600)"
    by (simp only: last_offset [OF D]) (simp split: if_splits)
  show "\<exists>jobs paths. splitAudioIntoChunks env p = (jobs, Inr paths)
        \<and> length jobs = nat \<lceil>D / of_int CHUNK_DURATION_SEC\<rceil> \<and> length paths = length jobs
        \<and> (\<forall>i < length jobs.
              job_input (jobs ! i) = p \<and> job_output (jobs ! i) = paths ! i
              \<and> job_start (jobs ! i) = of_nat i * of_int CHUNK_DURATION_SEC
              \<and> job_duration (jobs ! i)
                  = min (of_int CHUNK_DURATION_SEC) (D - of_nat i * of_int CHUNK_DURATION_SEC))
        \<and> sum_list (map job_duration jobs) = D
        \<and> job_duration (last jobs)
            = (if of_int \<lfloor>D / of_int CHUNK_DURATION_SEC\<rfloor> * of_int CHUNK_DURATION_SEC = D
               then of_int CHUNK_DURATION_SEC
               else D - of_int \<lfloor>D / of_int CHUNK_DURATION_SEC\<rfloor> * of_int CHUNK_DURATION_SEC)"
    unfolding C using s len each total lst by blast
qed

theorem chunk_coverage_witness:
  "getAudioDuration (sample_media (JNumber 1500)) ''/tmp/a.mp3'' = Inr (Some 1500)
   \<and> (\<forall>job. ffmpeg_run (sample_media (JNumber 1500)) job = None)
   \<and> (\<exists>jobs paths. splitAudioIntoChunks (sample_media (JNumber 1500)) ''/tmp/a.mp3'' = (jobs, Inr paths)
         \<and> length jobs = 3 \<and> length paths = 3
         \<and> sum_list (map job_duration jobs) = 1500
         \<and> job_duration (last jobs) = 300)
   \<and> getAudioDuration (sample_media (JNumber 600)) ''/tmp/a.mp3'' = Inr (Some 600)
   \<and> splitAudioIntoChunks (sample_media (JNumber 600)) ''/tmp/a.mp3'' = ([], Inr [''/tmp/a.mp3''])"
proof -
  have h1: "getAudioDuration (sample_media (JNumber 1500)) ''/tmp/a.mp3'' = Inr (Some 1500)"
    by (simp add: sample_media_duration)
  have h2: "\<forall>job. ffmpeg_run (sample_media (JNumber 1500)) job = None"
    by (simp add: sample_media_def)
  have h3: "getAudioDuration (sample_media (JNumber 600)) ''/tmp/a.mp3'' = Inr (Some 600)"
    by (simp add: sample_media_duration)
  have c: "(of_int CHUNK_DURATION_SEC :: rat) = 600" by (simp add: CHUNK_DURATION_SEC_def)
  show ?thesis
    using chunk_coverage [of "sample_media (JNumber 1500)" "''/tmp/a.mp3''" 1500]
      chunk_coverage [of "sample_media (JNumber 600)" "''/tmp/a.mp3''" 600] h1 h2 h3
    by (auto simp: c ceiling_five_halves floor_five_halves)
qed

text \<open>
  Claim C9. Probing always resolves (it is never \<open>Inl\<close>). It resolves to \<open>None\<close> when
  the media library cannot be loaded, when the probe reports an error, and when the
  reported duration is missing, not a number or not positive; so a duration it does
  return is strictly positive.
\<close>

theorem probe_fail_soft:
  "(\<exists>r. getAudioDuration env p = Inr r)
   \<and> (\<not> ffmpeg_present env \<longrightarrow> getAudioDuration env p = Inr None)
   \<and> (\<forall>msg. ffprobe env p = ProbeError msg \<longrightarrow> getAudioDuration env p = Inr None)
   \<and> (\<forall>md. ffprobe env p = ProbeData md \<and> (\<forall>d. probed_duration md = JNumber d \<longrightarrow> d \<le> 0) \<longrightarrow>
         getAudioDuration env p = Inr None)
   \<and> (\<forall>d. getAudioDuration env p = Inr (Some d) \<longrightarrow> 0 < d)"
proof (intro conjI allI impI)
  show "\<exists>r. getAudioDuration env p = Inr r" by (rule getAudioDuration_total)
next
  assume "\<not> ffmpeg_present env"
  then show "getAudioDuration env p = Inr None" by (simp add: getAudioDuration_def)
next
  fix msg assume "ffprobe env p = ProbeError msg"
  then show "getAudioDuration env p = Inr None" by (simp add: getAudioDuration_def)
next
  fix md assume "ffprobe env p = ProbeData md \<and> (\<forall>d. probed_duration md = JNumber d \<longrightarrow> d \<le> 0)"
  then show "getAudioDuration env p = Inr None"
    by (auto simp: getAudioDuration_def split: js_value.splits)
next
  fix d assume "getAudioDuration env p = Inr (Some d)"
  then show "0 < d" using getAudioDuration_Some by blast
qed

theorem probe_fail_soft_witness:
  "getAudioDuration (sample_media (JNumber 1500)) ''a.mp3'' = Inr (Some 1500) \<and> (0::rat) < 1500
   \<and> \<not> ffmpeg_present ((sample_media (JNumber 1500))\<lparr>ffmpeg_present := False\<rparr>)
   \<and> getAudioDuration ((sample_media (JNumber 1500))\<lparr>ffmpeg_present := False\<rparr>) ''a.mp3'' = Inr None
   \<and> ffprobe ((sample_media JNull)\<lparr>ffprobe := (\<lambda>p. ProbeError ''no such file'')\<rparr>) ''a.mp3''
        = ProbeError ''no such file''
   \<and> getAudioDuration ((sample_media JNull)\<lparr>ffprobe := (\<lambda>p. ProbeError ''no such file'')\<rparr>) ''a.mp3''
        = Inr None
   \<and> getAudioDuration (sample_media (JString ''12'')) ''a.mp3'' = Inr None
   \<and> getAudioDuration (sample_media (JNumber 0)) ''a.mp3'' = Inr None"
proof -
  let ?off = "(sample_media (JNumber 1500))\<lparr>ffmpeg_present := False\<rparr>"
  let ?err = "(sample_media JNull)\<lparr>ffprobe := (\<lambda>p. ProbeError ''no such file'')\<rparr>"
  have h1: "getAudioDuration (sample_media (JNumber 1500)) ''a.mp3'' = Inr (Some 1500)"
    by (simp add: sample_media_duration)
  have h2: "\<not> ffmpeg_present ?off" by (simp add: sample_media_def)
  have h3: "ffprobe ?err ''a.mp3'' = ProbeError ''no such file''" by simp
  have h4: "ffprobe (sample_media (JString ''12'')) ''a.mp3''
              = ProbeData (Some \<lparr>format = Some \<lparr>duration = JString ''12''\<rparr>\<rparr>)
            \<and> (\<forall>d. probed_duration (Some \<lparr>format = Some \<lparr>duration = JString ''12''\<rparr>\<rparr>) = JNumber d \<longrightarrow> d \<le> 0)"
    by (simp add: sample_media_def probed_duration_def)
  have h5: "ffprobe (sample_media (JNumber 0)) ''a.mp3''
              = ProbeData (Some \<lparr>format = Some \<lparr>duration = JNumber 0\<rparr>\<rparr>)
            \<and> (\<forall>d. probed_duration (Some \<lparr>format = Some \<lparr>duration = JNumber 0\<rparr>\<rparr>) = JNumber d \<longrightarrow> d \<le> 0)"
    by (simp add: sample_media_def probed_duration_def)
  show ?thesis
    using probe_fail_soft [of "sample_media (JNumber 1500)" "''a.mp3''"]
      probe_fail_soft [of ?off "''a.mp3''"] probe_fail_soft [of ?err "''a.mp3''"]
      probe_fail_soft [of "sample_media (JString ''12'')" "''a.mp3''"]
      probe_fail_soft [of "sample_media (JNumber 0)" "''a.mp3''"]
      h1 h2 h3 h4 h5
    by blast
qed

section \<open>Claims about the orchestration\<close>




text \<open>
  Claim C3. For every list of per-chunk results whose segments have strings as start
  and end, as their type declares, the merge loop runs through and the result it builds
  is the one the specification describes: the segments of the surviving chunks (those
  with at least one segment) in index order, each start and end shifted by the chunk's
  index times the chunk duration; the non-empty summaries of those chunks joined with a
  blank line; the last non-empty detected language; the largest speaker count, at
  least 1. The same result and speaker count go into the completing write. For
  languages \<open>""\<close>, \<open>"en"\<close>, \<open>""\<close> and counts 2, 1, 3 this gives \<open>"en"\<close> and 3. For any
  other list of results there is no merged result: the loop throws the \<open>TypeError\<close>.
\<close>

theorem merge_aggregation:
  "(list_all strings_only rs \<longrightarrow>
      (\<exists>acc. merge_results rs = Inr acc
         \<and> final_result acc = spec_merge rs
         \<and> upd_result (completed_update env acc) = Some (spec_merge rs)
         \<and> upd_speakers_count (completed_update env acc) = speakers_count (spec_merge rs)))
   \<and> (\<not> list_all strings_only rs \<longrightarrow> merge_results rs = Inl TrimTypeError)"
proof -
  have "final_result (merged_acc rs) = spec_merge rs" by (rule final_result_spec)
  moreover have "(if speakersCount (merged_acc rs) = 0 then 1 else speakersCount (merged_acc rs))
             = spec_speakers (surviving rs)"
    unfolding merge_results_fields spec_speakers_def by (rule speakers_floor)
  ultimately have "final_result (merged_acc rs) = spec_merge rs
         \<and> upd_result (completed_update env (merged_acc rs)) = Some (spec_merge rs)
         \<and> upd_speakers_count (completed_update env (merged_acc rs)) = speakers_count (spec_merge rs)"
    by (simp add: completed_update_def spec_merge_def)
  then show ?thesis by (simp add: merge_results_cases)
qed

theorem merge_aggregation_example:
  "list_all strings_only example_results
   \<and> (\<exists>acc. merge_results example_results = Inr acc
         \<and> detected_language (final_result acc) = Some ''en''
         \<and> speakers_count (final_result acc) = Some 3
         \<and> summary (final_result acc) = Some (''first'' @ blank_line @ ''third'')
         \<and> segments (final_result acc) =
              Some [sample_segment,
                sample_segment\<lparr>seg_start := Str ''00:10:05'', seg_end := Str ''00:10:09''\<rparr>,
                sample_segment\<lparr>seg_start := Str ''00:20:05'', seg_end := Str ''00:20:09''\<rparr>])
   \<and> \<not> list_all strings_only cut_results
   \<and> merge_results cut_results = Inl TrimTypeError"
proof -
  have a: "list_all strings_only example_results" "\<not> list_all strings_only cut_results"
    by code_simp+
  from merge_aggregation [of example_results] a(1) obtain acc where
    "merge_results example_results = Inr acc" "final_result acc = spec_merge example_results"
    by blast
  then have "\<exists>acc. merge_results example_results = Inr acc
         \<and> detected_language (final_result acc) = Some ''en''
         \<and> speakers_count (final_result acc) = Some 3
         \<and> summary (final_result acc) = Some (''first'' @ blank_line @ ''third'')
         \<and> segments (final_result acc) =
              Some [sample_segment,
                sample_segment\<lparr>seg_start := Str ''00:10:05'', seg_end := Str ''00:10:09''\<rparr>,
                sample_segment\<lparr>seg_start := Str ''00:20:05'', seg_end := Str ''00:20:09''\<rparr>]"
    by (simp add: example_spec_merge)
  moreover have "merge_results cut_results = Inl TrimTypeError"
    using merge_aggregation [of cut_results] a(2) by blast
  ultimately show ?thesis using a by blast
qed

text \<open>
  Claim C6. Whatever order the chunk tasks of each window complete in (any permutation
  of the window's indices), once the windows are through the result array holds at each
  index the result of that chunk, as if the chunks had been processed one after the
  other in index order. With a store that accepts every write, the last write of the
  run, and with it the merged result, is the same as for the run in which every window
  completes in index order, and it is the merge of the sequentially obtained results
  (or the failure that merge ends in).
\<close>

theorem merge_order_independence:
  assumes "\<forall>w. mset (completion_order env w) = mset w"
  shows "(window_loop env tid fn mt paths 0 st = (st', Inr ()) \<and> length (results st) = length paths \<longrightarrow>
            results st' = sequential_results env fn mt paths)
       \<and> (api_key env = Some key \<and> key \<noteq> [] \<and> store_accepts env
            \<and> splitAudioIntoChunks (media env) tmp = (jobs, Inr paths) \<longrightarrow>
            final_write (runGeminiTranscription env tid tmp fn mt)
              = final_write (runGeminiTranscription (env\<lparr>completion_order := (\<lambda>w. w)\<rparr>) tid tmp fn mt)
          \<and> final_write (runGeminiTranscription env tid tmp fn mt)
              = Some (case merge_results (sequential_results env fn mt paths) of
                        Inl e \<Rightarrow> failed_update e
                      | Inr acc \<Rightarrow>
                          if allSegments acc = [] then failed_update NoSegmentsFromAnyFragment
                          else completed_update env acc))"
proof (intro conjI impI)
  assume a: "window_loop env tid fn mt paths 0 st = (st', Inr ()) \<and> length (results st) = length paths"
  then have w: "window_loop env tid fn mt paths 0 st = (st', Inr ())"
    and l: "length (results st) = length paths" by simp_all
  have "results st' = map (\<lambda>j. if 0 \<le> j then snd (chunk_result env fn mt paths j) else results st ! j)
                       [0..<length paths]"
    using w l assms by (rule window_loop_results)
  then show "results st' = sequential_results env fn mt paths"
    by (simp add: sequential_results_chunk)
next
  assume h: "api_key env = Some key \<and> key \<noteq> [] \<and> store_accepts env
            \<and> splitAudioIntoChunks (media env) tmp = (jobs, Inr paths)"
  let ?env' = "env\<lparr>completion_order := (\<lambda>w. w)\<rparr>"
  have 1: "final_write (runGeminiTranscription env tid tmp fn mt)
              = Some (case merge_results (sequential_results env fn mt paths) of
                        Inl e \<Rightarrow> failed_update e
                      | Inr acc \<Rightarrow>
                          if allSegments acc = [] then failed_update NoSegmentsFromAnyFragment
                          else completed_update env acc)"
    using run_accept [of env key tmp jobs paths tid fn mt] h assms
    by (simp add: sequential_results_chunk)
  have "final_write (runGeminiTranscription ?env' tid tmp fn mt)
              = Some (case merge_results (sequential_results ?env' fn mt paths) of
                        Inl e \<Rightarrow> failed_update e
                      | Inr acc \<Rightarrow>
                          if allSegments acc = [] then failed_update NoSegmentsFromAnyFragment
                          else completed_update ?env' acc)"
    using run_accept [of ?env' key tmp jobs paths tid fn mt] h
    by (simp add: sequential_results_chunk in_order_env)
  then have 2: "final_write (runGeminiTranscription ?env' tid tmp fn mt)
              = Some (case merge_results (sequential_results env fn mt paths) of
                        Inl e \<Rightarrow> failed_update e
                      | Inr acc \<Rightarrow>
                          if allSegments acc = [] then failed_update NoSegmentsFromAnyFragment
                          else completed_update env acc)"
    by (simp only: in_order_env)
  show "final_write (runGeminiTranscription env tid tmp fn mt)
              = final_write (runGeminiTranscription ?env' tid tmp fn mt)"
    by (simp only: 1 2)
  show "final_write (runGeminiTranscription env tid tmp fn mt)
              = Some (case merge_results (sequential_results env fn mt paths) of
                        Inl e \<Rightarrow> failed_update e
                      | Inr acc \<Rightarrow>
                          if allSegments acc = [] then failed_update NoSegmentsFromAnyFragment
                          else completed_update env acc)"
    by (rule 1)
qed

theorem merge_order_independence_witness:
  "(\<forall>w. mset (completion_order partial_env w) = mset w)
   \<and> completion_order partial_env [0, 1] = [1, 0]
   \<and> api_key partial_env = Some ''key'' \<and> store_accepts partial_env
   \<and> splitAudioIntoChunks (media partial_env) ''/tmp/a.mp3'' = (three_jobs, Inr three_paths)
   \<and> final_write (runGeminiTranscription partial_env ''t1'' ''/tmp/a.mp3'' ''a.mp3'' ''audio/mpeg'')
       = final_write (runGeminiTranscription (partial_env\<lparr>completion_order := (\<lambda>w. w)\<rparr>)
                        ''t1'' ''/tmp/a.mp3'' ''a.mp3'' ''audio/mpeg'')"
proof -
  have key: "''key'' \<noteq> []" by simp
  have p: "\<forall>w. mset (completion_order partial_env w) = mset w"
    "api_key partial_env = Some ''key''" "store_accepts partial_env"
    "splitAudioIntoChunks (media partial_env) ''/tmp/a.mp3'' = (three_jobs, Inr three_paths)"
    by (simp_all add: partial_env_def sample_env_basics sample_store_accepts sample_split_three)
  have r: "completion_order partial_env [0, 1] = [1, 0]"
    by (simp add: partial_env_def sample_env_def)
  show ?thesis
    using merge_order_independence [OF p(1), where key = "''key''" and tmp = "''/tmp/a.mp3''"
        and jobs = three_jobs and paths = three_paths and tid = "''t1''" and fn = "''a.mp3''"
        and mt = "''audio/mpeg''"] p r key
    by blast
qed

section \<open>Claims about a single chunk\<close>

text \<open>
  Claim C7. Parsing never throws: it always returns a result or \<open>null\<close>. A blank text
  gives \<open>null\<close> at once. Otherwise the strict parse is tried first and its value
  returned when it succeeds; only when it throws is the text repaired and the repaired
  text parsed strictly, any failure of the two giving \<open>null\<close>. An attempt accepts a
  parsed value only when it has at least one segment: an attempt whose reply parses to
  \<open>null\<close>, to a value without segments or to one with an empty segment list fails with
  "Empty or invalid segments", so a chunk never returns a result without segments.
\<close>

theorem response_parsing:
  "(\<exists>r. parseGeminiJson (json env) raw = Inr r)
   \<and> (trim raw = [] \<longrightarrow> parseGeminiJson (json env) raw = Inr None)
   \<and> (\<forall>v. trim raw \<noteq> [] \<and> JSON_parse (json env) raw = Inr v \<longrightarrow>
          parseGeminiJson (json env) raw = Inr v)
   \<and> (\<forall>e. trim raw \<noteq> [] \<and> JSON_parse (json env) raw = Inl e \<longrightarrow>
          parseGeminiJson (json env) raw =
            (case jsonrepair (json env) raw of
               Inl e' \<Rightarrow> Inr None
             | Inr repaired \<Rightarrow>
                 (case JSON_parse (json env) repaired of Inl e' \<Rightarrow> Inr None | Inr v \<Rightarrow> Inr v)))
   \<and> (\<forall>ev g res. attempt_body env fp dn mt a gfn = (ev, g, Inr res) \<longrightarrow> has_segments (Some res))
   \<and> (\<forall>up txt parsed.
          upload_reply (replies env fp mt dn a) = Inr up
          \<and> get_reply (replies env fp mt dn a) 0 = Inr ACTIVE
          \<and> generate_reply (replies env fp mt dn a) = Inr txt
          \<and> parseGeminiJson (json env) (case txt of None \<Rightarrow> [] | Some t \<Rightarrow> trim t) = Inr parsed
          \<and> \<not> has_segments parsed \<longrightarrow>
          snd (snd (attempt_body env fp dn mt a gfn)) = Inl EmptyOrInvalidSegments)
   \<and> (\<forall>res. snd (runSingleChunk env fp dn mt retries) = Some res \<longrightarrow> has_segments (Some res))"
  apply (intro conjI allI impI)
  subgoal by (rule parseGeminiJson_total)
  subgoal by (simp add: parseGeminiJson_def)
  subgoal by (simp add: parseGeminiJson_def)
  subgoal by (simp add: parseGeminiJson_def)
  subgoal by (rule attempt_body_accepts)
  subgoal using attempt_body_rejects by blast
  subgoal unfolding runSingleChunk_def by (rule retry_loop_accepts)
  done

theorem response_parsing_witness:
  "trim '' '' = [] \<and> parseGeminiJson sample_json '' '' = Inr None
   \<and> trim ''good'' \<noteq> [] \<and> JSON_parse sample_json ''good'' = Inr (Some (sample_result ''talk'' ''en'' 2))
   \<and> parseGeminiJson sample_json ''good'' = Inr (Some (sample_result ''talk'' ''en'' 2))
   \<and> trim ''good,'' \<noteq> [] \<and> JSON_parse sample_json ''good,'' = Inl (Text ''SyntaxError'')
   \<and> parseGeminiJson sample_json ''good,'' = Inr (Some (sample_result ''talk'' ''en'' 2))
   \<and> snd (snd (attempt_body empty_reply_ai ''a.mp3'' (WholeFile ''a.mp3'') ''audio/mpeg'' 0 None))
        = Inl EmptyOrInvalidSegments
   \<and> snd (runSingleChunk (sample_ai (\<lambda>p. False)) ''a.mp3'' (WholeFile ''a.mp3'') ''audio/mpeg'' 2)
        = Some (sample_result ''talk'' ''en'' 2)
   \<and> has_segments (Some (sample_result ''talk'' ''en'' 2))"
proof -
  note t1 = response_parsing [where env = "sample_ai (\<lambda>p. False)" and raw = "'' ''"
      and fp = "''a.mp3''" and dn = "WholeFile ''a.mp3''" and mt = "''audio/mpeg''" and retries = 2]
  note t2 = response_parsing [where env = "sample_ai (\<lambda>p. False)" and raw = "''good''"]
  note t3 = response_parsing [where env = "sample_ai (\<lambda>p. False)" and raw = "''good,''"]
  note t4 = response_parsing [where env = empty_reply_ai and fp = "''a.mp3''"
      and dn = "WholeFile ''a.mp3''" and mt = "''audio/mpeg''" and a = 0 and gfn = None]
  have c1: "parseGeminiJson sample_json '' '' = Inr None"
    using t1 sample_parse_facts(1) unfolding sample_json_of by blast
  have c2: "parseGeminiJson sample_json ''good'' = Inr (Some (sample_result ''talk'' ''en'' 2))"
    using t2 sample_parse_facts(2,3) unfolding sample_json_of by blast
  have c3: "parseGeminiJson sample_json ''good,'' = Inr (Some (sample_result ''talk'' ''en'' 2))"
  proof -
    have "parseGeminiJson sample_json ''good,'' =
            (case jsonrepair sample_json ''good,'' of
               Inl e' \<Rightarrow> Inr None
             | Inr repaired \<Rightarrow>
                 (case JSON_parse sample_json repaired of Inl e' \<Rightarrow> Inr None | Inr v \<Rightarrow> Inr v))"
      using t3 sample_parse_facts(4,5) unfolding sample_json_of by blast
    then show ?thesis by (simp add: sample_parse_facts)
  qed
  have c4: "snd (snd (attempt_body empty_reply_ai ''a.mp3'' (WholeFile ''a.mp3'') ''audio/mpeg'' 0 None))
        = Inl EmptyOrInvalidSegments"
  proof -
    have "parseGeminiJson (json empty_reply_ai) (case Some ''empty'' of None \<Rightarrow> [] | Some t \<Rightarrow> trim t)
            = Inr (Some \<lparr>segments = Some [], summary = Some ''none'', detected_language = Some ''en'',
                    speakers_count = Some 1\<rparr>)"
      by (simp add: empty_reply_facts sample_json_of)
    with t4 empty_reply_facts(1,2,3,5) show ?thesis by blast
  qed
  have c5: "has_segments (Some (sample_result ''talk'' ''en'' 2))"
    using t1 sample_chunk_ok by blast
  show ?thesis
    using c1 c2 c3 c4 c5 sample_parse_facts sample_chunk_ok by simp
qed

text \<open>
  Claim C4. Every attempt on a chunk, the first and each retry, begins with an upload
  of the chunk and uploads once. When an attempt fails after a handle with a name was
  obtained, the deletion of that handle is among the events of the attempt and its
  clean-up. A failed attempt \<open>a\<close> with attempts left is followed by the clean-up, a wait
  of \<open>2 ^ a * 2000\<close> milliseconds and the next attempt; the failed attempt number
  \<open>retries\<close> is followed by the clean-up and the deletion of the local file, and the
  chunk is absent. So a chunk is uploaded at least once and at most \<open>retries + 1\<close>
  times, the waits are \<open>2000, 4000, ...\<close>, one between consecutive uploads, the local
  file is deleted last, an absent result means all \<open>retries + 1\<close> attempts were made,
  and a chunk all of whose attempts fail is absent. The orchestrator asks for 2
  retries.
\<close>

theorem per_chunk_retry:
  "(\<forall>a gfn. \<exists>rest. fst (attempt_body env fp dn mt a gfn) = Upload fp mt dn # rest
                    \<and> upload_count rest = 0)
   \<and> (\<forall>a gfn ev g err up.
         attempt_body env fp dn mt a gfn = (ev, g, Inl err)
         \<and> upload_reply (replies env fp mt dn a) = Inr up \<and> up_name up \<noteq> [] \<longrightarrow>
         DeleteRemote (up_name up) \<in> set (ev @ cleanup_remote g))
   \<and> (\<forall>a gfn ev g err.
         a < retries \<and> attempt_body env fp dn mt a gfn = (ev, g, Inl err) \<longrightarrow>
         retry_loop env fp dn mt retries a gfn =
           emit (ev @ [LogAttemptFailed (a + 1) dn err] @ cleanup_remote g
                   @ [BackoffSleep (2 ^ a * 2000)])
             (retry_loop env fp dn mt retries (Suc a) g))
   \<and> (\<forall>gfn ev g err.
         attempt_body env fp dn mt retries gfn = (ev, g, Inl err) \<longrightarrow>
         retry_loop env fp dn mt retries retries gfn =
           (ev @ [LogAttemptFailed (retries + 1) dn err] @ cleanup_remote g @ [Unlink fp], None))
   \<and> 1 \<le> upload_count (fst (runSingleChunk env fp dn mt retries))
   \<and> upload_count (fst (runSingleChunk env fp dn mt retries)) \<le> retries + 1
   \<and> backoffs (fst (runSingleChunk env fp dn mt retries))
       = map (\<lambda>j. 2 ^ j * 2000) [0..<upload_count (fst (runSingleChunk env fp dn mt retries)) - 1]
   \<and> last (fst (runSingleChunk env fp dn mt retries)) = Unlink fp
   \<and> (snd (runSingleChunk env fp dn mt retries) = None \<longrightarrow>
        upload_count (fst (runSingleChunk env fp dn mt retries)) = retries + 1)
   \<and> ((\<forall>a g. a \<le> retries \<longrightarrow> (\<exists>err. snd (snd (attempt_body env fp dn mt a g)) = Inl err)) \<longrightarrow>
        snd (runSingleChunk env fp dn mt retries) = None)
   \<and> chunk_result env' fn mt' paths i =
        runSingleChunk (ai env') (paths ! i) (display_name_of fn (length paths) i) mt' 2"
proof -
  have s1: "\<forall>a gfn. \<exists>rest. fst (attempt_body env fp dn mt a gfn) = Upload fp mt dn # rest
                    \<and> upload_count rest = 0"
  proof (intro allI)
    fix a gfn
    obtain ev g out where b: "attempt_body env fp dn mt a gfn = (ev, g, out)"
      by (cases "attempt_body env fp dn mt a gfn") auto
    from attempt_body_shape [OF b] show "\<exists>rest. fst (attempt_body env fp dn mt a gfn)
        = Upload fp mt dn # rest \<and> upload_count rest = 0"
      by (auto simp: b)
  qed
  have s2: "\<forall>a gfn ev g err up.
         attempt_body env fp dn mt a gfn = (ev, g, Inl err)
         \<and> upload_reply (replies env fp mt dn a) = Inr up \<and> up_name up \<noteq> [] \<longrightarrow>
         DeleteRemote (up_name up) \<in> set (ev @ cleanup_remote g)"
    using attempt_body_deletes by blast
  have s3: "\<forall>a gfn ev g err.
         a < retries \<and> attempt_body env fp dn mt a gfn = (ev, g, Inl err) \<longrightarrow>
         retry_loop env fp dn mt retries a gfn =
           emit (ev @ [LogAttemptFailed (a + 1) dn err] @ cleanup_remote g
                   @ [BackoffSleep (2 ^ a * 2000)])
             (retry_loop env fp dn mt retries (Suc a) g)"
    using retry_again by blast
  have s4: "\<forall>gfn ev g err.
         attempt_body env fp dn mt retries gfn = (ev, g, Inl err) \<longrightarrow>
         retry_loop env fp dn mt retries retries gfn =
           (ev @ [LogAttemptFailed (retries + 1) dn err] @ cleanup_remote g @ [Unlink fp], None)"
    using retry_last by blast
  have t: "1 \<le> upload_count (fst (runSingleChunk env fp dn mt retries))
   \<and> upload_count (fst (runSingleChunk env fp dn mt retries)) \<le> retries + 1
   \<and> backoffs (fst (runSingleChunk env fp dn mt retries))
       = map (\<lambda>j. 2 ^ j * 2000) [0..<upload_count (fst (runSingleChunk env fp dn mt retries)) - 1]
   \<and> last (fst (runSingleChunk env fp dn mt retries)) = Unlink fp
   \<and> (snd (runSingleChunk env fp dn mt retries) = None \<longrightarrow>
        upload_count (fst (runSingleChunk env fp dn mt retries)) = retries + 1)"
    using retry_loop_trace [of 0 retries env fp dn mt None] by (simp add: runSingleChunk_def)
  have s5: "(\<forall>a g. a \<le> retries \<longrightarrow> (\<exists>err. snd (snd (attempt_body env fp dn mt a g)) = Inl err)) \<longrightarrow>
        snd (runSingleChunk env fp dn mt retries) = None"
    unfolding runSingleChunk_def by (intro impI retry_loop_exhausts) auto
  have s6: "chunk_result env' fn mt' paths i =
        runSingleChunk (ai env') (paths ! i) (display_name_of fn (length paths) i) mt' 2"
    by (simp add: chunk_result_def)
  show ?thesis using s1 s2 s3 s4 t s5 s6 by blast
qed

theorem per_chunk_retry_witness:
  "(\<forall>a g. snd (snd (attempt_body (sample_ai (\<lambda>p. True)) ''a.mp3'' (WholeFile ''a.mp3'')
                         ''audio/mpeg'' a g)) = Inl (Text ''503''))
   \<and> snd (runSingleChunk (sample_ai (\<lambda>p. True)) ''a.mp3'' (WholeFile ''a.mp3'') ''audio/mpeg'' 2) = None
   \<and> upload_count (fst (runSingleChunk (sample_ai (\<lambda>p. True)) ''a.mp3'' (WholeFile ''a.mp3'')
                           ''audio/mpeg'' 2)) = 3
   \<and> backoffs (fst (runSingleChunk (sample_ai (\<lambda>p. True)) ''a.mp3'' (WholeFile ''a.mp3'')
                       ''audio/mpeg'' 2)) = [2000, 4000]
   \<and> last (fst (runSingleChunk (sample_ai (\<lambda>p. True)) ''a.mp3'' (WholeFile ''a.mp3'')
                   ''audio/mpeg'' 2)) = Unlink ''a.mp3''
   \<and> DeleteRemote ''files/x''
        \<in> set ([Upload ''a.mp3'' ''audio/mpeg'' (WholeFile ''a.mp3''), GetFile ''files/x'',
                 Generate ''uri/x'' ''audio/mpeg''] @ cleanup_remote (Some ''files/x''))
   \<and> retry_loop (sample_ai (\<lambda>p. True)) ''a.mp3'' (WholeFile ''a.mp3'') ''audio/mpeg'' 2 0 None =
        emit ([Upload ''a.mp3'' ''audio/mpeg'' (WholeFile ''a.mp3''), GetFile ''files/x'',
               Generate ''uri/x'' ''audio/mpeg'']
              @ [LogAttemptFailed (0 + 1) (WholeFile ''a.mp3'') (Text ''503'')]
              @ cleanup_remote (Some ''files/x'') @ [BackoffSleep (2 ^ 0 * 2000)])
          (retry_loop (sample_ai (\<lambda>p. True)) ''a.mp3'' (WholeFile ''a.mp3'') ''audio/mpeg'' 2 (Suc 0)
             (Some ''files/x''))"
proof -
  let ?env = "sample_ai (\<lambda>p. True)"
  let ?run = "runSingleChunk ?env ''a.mp3'' (WholeFile ''a.mp3'') ''audio/mpeg'' 2"
  note t = per_chunk_retry [where env = ?env and fp = "''a.mp3''" and dn = "WholeFile ''a.mp3''"
      and mt = "''audio/mpeg''" and retries = 2]
  have h: "\<forall>a g. a \<le> 2 \<longrightarrow>
      (\<exists>err. snd (snd (attempt_body ?env ''a.mp3'' (WholeFile ''a.mp3'') ''audio/mpeg'' a g)) = Inl err)"
    by (simp add: failing_attempt)
  have none: "snd ?run = None" using t h by blast
  then have cnt: "upload_count (fst ?run) = 3" using t by simp
  have "backoffs (fst ?run) = map (\<lambda>j. 2 ^ j * 2000) [0..<upload_count (fst ?run) - 1]"
    using t by blast
  then have bo: "backoffs (fst ?run) = [2000, 4000]"
    by (simp add: cnt upt_rec)
  have lst: "last (fst ?run) = Unlink ''a.mp3''" using t by blast
  have nm: "up_name \<lparr>up_name = ''files/x'', up_uri = ''uri/x'', up_mimeType = ''audio/mpeg''\<rparr> \<noteq> []"
    by simp
  have del: "DeleteRemote ''files/x''
        \<in> set ([Upload ''a.mp3'' ''audio/mpeg'' (WholeFile ''a.mp3''), GetFile ''files/x'',
                 Generate ''uri/x'' ''audio/mpeg''] @ cleanup_remote (Some ''files/x''))"
    using t failing_attempt [of 0 None] failing_upload_reply [of 0] nm
    by (metis uploaded.select_convs(1))
  have "(0::nat) < 2" by simp
  then have again: "retry_loop ?env ''a.mp3'' (WholeFile ''a.mp3'') ''audio/mpeg'' 2 0 None =
        emit ([Upload ''a.mp3'' ''audio/mpeg'' (WholeFile ''a.mp3''), GetFile ''files/x'',
               Generate ''uri/x'' ''audio/mpeg'']
              @ [LogAttemptFailed (0 + 1) (WholeFile ''a.mp3'') (Text ''503'')]
              @ cleanup_remote (Some ''files/x'') @ [BackoffSleep (2 ^ 0 * 2000)])
          (retry_loop ?env ''a.mp3'' (WholeFile ''a.mp3'') ''audio/mpeg'' 2 (Suc 0) (Some ''files/x''))"
    using t failing_attempt [of 0 None] by blast
  have h': "\<forall>a g. snd (snd (attempt_body ?env ''a.mp3'' (WholeFile ''a.mp3'') ''audio/mpeg'' a g))
              = Inl (Text ''503'')"
    by (simp add: failing_attempt)
  show ?thesis using h' none cnt bo lst del again by blast
qed

section \<open>Claims about progress writes\<close>

text \<open>
  A run in which the only chunk is transcribed at the first attempt and the store then
  rejects the progress write that reports it: the rejected write is in the trace, and
  the last write to the task marks it \<open>Failed\<close> with the store's error.
\<close>

theorem progress_write_failure_counterexample:
  "has_segments (snd (chunk_result rejecting_env ''a.mp3'' ''audio/mpeg'' [''/tmp/a.mp3''] 0))
   \<and> splitAudioIntoChunks (media rejecting_env) ''/tmp/a.mp3'' = ([], Inr [''/tmp/a.mp3''])
   \<and> StoreRejected ''t1'' (message_update (ProcessingPartPct 1 1 90)) (DirectusError 503 ''unavailable'')
        \<in> set (trace (fst (runGeminiTranscription rejecting_env ''t1'' ''/tmp/a.mp3'' ''a.mp3'' ''audio/mpeg'')))
   \<and> final_write (runGeminiTranscription rejecting_env ''t1'' ''/tmp/a.mp3'' ''a.mp3'' ''audio/mpeg'')
        = Some (failed_update (DirectusError 503 ''unavailable''))"
  by code_simp

text \<open>
  Claim C8, as the code has it. Every write to the task store is awaited inside the
  \<open>try\<close> block, so a rejected write, a progress write included, is not absorbed: the
  first rejected write ends the block with the store's error, and the handler logs the
  error and asks the store to mark the task \<open>Failed\<close> with that error's message. When
  the store accepts that request, the source file is deleted and the promise of the
  run resolves. The chunk tasks of the rejected window that were still running are not
  cancelled: all that follows in the run is what they do, and the only writes among it
  are their progress messages, which set no status. So the status of the task stays
  \<open>Failed\<close>, while its message may be replaced by a progress message; when no chunk task
  was left running, the task is left \<open>Failed\<close> with the message of the rejected write.
\<close>

theorem progress_write_propagates:
  assumes "api_key env = Some key" and "key \<noteq> []"
    and "pipeline_body env tid tmp fn mt initial_state = (st, r)"
    and "rejections (trace st) = e # es"
  shows "r = Inl e
       \<and> runGeminiTranscription env tid tmp fn mt =
           (case updateTask (store env) tid (failed_update e) (emit_events [LogPipelineError e] st) of
              (st', Inl e') \<Rightarrow> (run_background env tid fn mt (background st') st', Inl e')
            | (st', Inr x) \<Rightarrow>
                (run_background env tid fn mt (background st') (emit_events [Unlink tmp] st'), Inr ()))
       \<and> (directusRequest (store_reply (store env) (store_calls (trace st)) tid (failed_update e)) = Inr () \<longrightarrow>
            snd (runGeminiTranscription env tid tmp fn mt) = Inr ()
            \<and> (\<exists>bg. trace (fst (runGeminiTranscription env tid tmp fn mt))
                       = trace st @ [LogPipelineError e, StoreWrite tid (failed_update e), Unlink tmp] @ bg
                     \<and> list_all is_progress_update (store_writes bg))
            \<and> final_status (runGeminiTranscription env tid tmp fn mt) = Some Failed
            \<and> (background st = [] \<longrightarrow>
                 final_write (runGeminiTranscription env tid tmp fn mt) = Some (failed_update e)))"
proof -
  let ?run = "runGeminiTranscription env tid tmp fn mt"
  have r: "r = Inl e" using body_rejection [OF assms(3,4)] .
  have run: "?run =
           (case updateTask (store env) tid (failed_update e) (emit_events [LogPipelineError e] st) of
              (st', Inl e') \<Rightarrow> (run_background env tid fn mt (background st') st', Inl e')
            | (st', Inr x) \<Rightarrow>
                (run_background env tid fn mt (background st') (emit_events [Unlink tmp] st'), Inr ()))"
    using assms(1,2,3) r by (simp add: runGeminiTranscription_def)
  have "directusRequest (store_reply (store env) (store_calls (trace st)) tid (failed_update e)) = Inr () \<longrightarrow>
            snd ?run = Inr ()
            \<and> (\<exists>bg. trace (fst ?run)
                       = trace st @ [LogPipelineError e, StoreWrite tid (failed_update e), Unlink tmp] @ bg
                     \<and> list_all is_progress_update (store_writes bg))
            \<and> final_status ?run = Some Failed
            \<and> (background st = [] \<longrightarrow> final_write ?run = Some (failed_update e))"
  proof
    assume ok: "directusRequest (store_reply (store env) (store_calls (trace st)) tid (failed_update e)) = Inr ()"
    let ?s2 = "emit_events [StoreWrite tid (failed_update e)] (emit_events [LogPipelineError e] st)"
    let ?s3 = "emit_events [Unlink tmp] ?s2"
    let ?final = "run_background env tid fn mt (background st) ?s3"
    let ?ev = "[LogPipelineError e, StoreWrite tid (failed_update e), Unlink tmp]"
    have u: "updateTask (store env) tid (failed_update e) (emit_events [LogPipelineError e] st)
               = (?s2, Inr ())"
      using ok by (simp add: updateTask_def store_calls_log)
    have run': "?run = (?final, Inr ())"
      by (simp add: run u)
    have t3: "trace ?s3 = trace st @ ?ev" by simp
    obtain bg where bg: "trace ?final = trace ?s3 @ bg" "list_all is_progress_update (store_writes bg)"
      using run_background_writes [of env tid fn mt "background st" ?s3] by blast
    have tr: "trace ?final = trace st @ ?ev @ bg" using bg(1) t3 by simp
    have w: "store_writes (trace ?final) = store_writes (trace st) @ [failed_update e] @ store_writes bg"
      by (simp add: tr store_writes_append store_writes_simps)
    have "List.map_filter upd_status (store_writes (trace st) @ [failed_update e] @ store_writes bg)
            = List.map_filter upd_status (store_writes (trace st)) @ [Failed]"
      by (simp add: map_filter_append failed_update_def no_update_def
          progress_updates_statuses [OF bg(2)])
    then have "List.map_filter upd_status (store_writes (trace ?final))
            = List.map_filter upd_status (store_writes (trace st)) @ [Failed]"
      by (simp only: w)
    then have fs: "final_status (?final, Inr ()) = Some Failed" by (rule final_status_last)
    have fw: "background st = [] \<longrightarrow> final_write (?final, Inr ()) = Some (failed_update e)"
    proof
      assume "background st = []"
      then have "store_writes (trace ?final) = store_writes (trace st) @ [failed_update e]"
        by (simp add: store_writes_append store_writes_simps)
      then show "final_write (?final, Inr ()) = Some (failed_update e)" by (rule final_write_last)
    qed
    have ex: "\<exists>bg. trace (fst ?run) = trace st @ ?ev @ bg \<and> list_all is_progress_update (store_writes bg)"
      using tr bg(2) by (intro exI [of _ bg]) (simp add: run')
    show "snd ?run = Inr ()
            \<and> (\<exists>bg. trace (fst ?run) = trace st @ ?ev @ bg
                     \<and> list_all is_progress_update (store_writes bg))
            \<and> final_status ?run = Some Failed
            \<and> (background st = [] \<longrightarrow> final_write ?run = Some (failed_update e))"
      using ex fs fw by (simp add: run')
  qed
  then show ?thesis using r run by blast
qed

theorem progress_write_propagates_witness:
  "api_key sibling_env = Some ''key''
   \<and> rejections (trace (fst (pipeline_body sibling_env ''t1'' ''/tmp/a.mp3'' ''a.mp3'' ''audio/mpeg''
                               initial_state))) = [DirectusError 503 ''unavailable'']
   \<and> snd (pipeline_body sibling_env ''t1'' ''/tmp/a.mp3'' ''a.mp3'' ''audio/mpeg'' initial_state)
        = Inl (DirectusError 503 ''unavailable'')
   \<and> directusRequest (store_reply (store sibling_env)
          (store_calls (trace (fst (pipeline_body sibling_env ''t1'' ''/tmp/a.mp3'' ''a.mp3''
                                      ''audio/mpeg'' initial_state))))
          ''t1'' (failed_update (DirectusError 503 ''unavailable''))) = Inr ()
   \<and> background (fst (pipeline_body sibling_env ''t1'' ''/tmp/a.mp3'' ''a.mp3'' ''audio/mpeg''
                         initial_state)) = [([''/tmp/a_chunk_0.mp3'', ''/tmp/a_chunk_1.mp3''], 1)]
   \<and> snd (runGeminiTranscription sibling_env ''t1'' ''/tmp/a.mp3'' ''a.mp3'' ''audio/mpeg'') = Inr ()
   \<and> final_status (runGeminiTranscription sibling_env ''t1'' ''/tmp/a.mp3'' ''a.mp3'' ''audio/mpeg'')
        = Some Failed
   \<and> final_write (runGeminiTranscription sibling_env ''t1'' ''/tmp/a.mp3'' ''a.mp3'' ''audio/mpeg'')
        = Some (message_update (ProcessingPartPct 2 2 53))
   \<and> api_key rejecting_env = Some ''key''
   \<and> has_segments (snd (chunk_result rejecting_env ''a.mp3'' ''audio/mpeg'' [''/tmp/a.mp3''] 0))
   \<and> rejections (trace (fst (pipeline_body rejecting_env ''t1'' ''/tmp/a.mp3'' ''a.mp3'' ''audio/mpeg''
                               initial_state))) = [DirectusError 503 ''unavailable'']
   \<and> directusRequest (store_reply (store rejecting_env)
          (store_calls (trace (fst (pipeline_body rejecting_env ''t1'' ''/tmp/a.mp3'' ''a.mp3''
                                      ''audio/mpeg'' initial_state))))
          ''t1'' (failed_update (DirectusError 503 ''unavailable''))) = Inr ()
   \<and> background (fst (pipeline_body rejecting_env ''t1'' ''/tmp/a.mp3'' ''a.mp3'' ''audio/mpeg''
                         initial_state)) = []
   \<and> final_status (runGeminiTranscription rejecting_env ''t1'' ''/tmp/a.mp3'' ''a.mp3'' ''audio/mpeg'')
        = Some Failed
   \<and> final_write (runGeminiTranscription rejecting_env ''t1'' ''/tmp/a.mp3'' ''a.mp3'' ''audio/mpeg'')
        = Some (failed_update (DirectusError 503 ''unavailable''))"
proof -
  let ?sib = "pipeline_body sibling_env ''t1'' ''/tmp/a.mp3'' ''a.mp3'' ''audio/mpeg'' initial_state"
  let ?rej = "pipeline_body rejecting_env ''t1'' ''/tmp/a.mp3'' ''a.mp3'' ''audio/mpeg'' initial_state"
  have key: "''key'' \<noteq> []" by simp
  have s: "?sib = (fst ?sib, snd ?sib)" and b: "?rej = (fst ?rej, snd ?rej)" by simp_all
  note ts = progress_write_propagates [OF sibling_env_facts(1) key s sibling_env_facts(2)]
  note tr = progress_write_propagates [OF rejecting_env_facts(1) key b rejecting_env_facts(2)]
  show ?thesis
    using ts tr sibling_env_facts rejecting_env_facts by blast
qed

end
